theory Spec2Isabelle
  imports
    Complex_Main
    "HOL-Library.Word"
    "HOL-Library.Multiset"
    "HOL-Library.Char_ord"
    "HOL-Library.List_Lexorder"
begin

unbundle bit_operations_syntax

chapter \<open>The frame-server core (src/core/vscore.cpp)\<close>

section \<open>Audio formats\<close>

text \<open>
  \<^verbatim>\<open>VSAudioFormat\<close> as the source fills it in \<^verbatim>\<open>VSCore::queryAudioFormat\<close>. The sample
  type arrives as an \<^verbatim>\<open>int\<close>; the enumerators \<^verbatim>\<open>stInteger\<close> and \<^verbatim>\<open>stFloat\<close> are declared
  in the public header, which is not part of the sources at hand, so the functions below
  take their values as the parameters \<open>stInteger\<close> and \<open>stFloat\<close>.
\<close>

record VSAudioFormat =
  sampleType :: int
  bitsPerSample :: int
  bytesPerSample :: int
  numChannels :: int
  channelLayout :: "64 word"

definition VSAudioFormat_zero :: VSAudioFormat where
  \<comment> \<open>\<^verbatim>\<open>f = {}\<close>\<close>
  "VSAudioFormat_zero =
     \<lparr>sampleType = 0, bitsPerSample = 0, bytesPerSample = 0, numChannels = 0, channelLayout = 0\<rparr>"

definition isValidAudioFormat :: "int \<Rightarrow> int \<Rightarrow> int \<Rightarrow> int \<Rightarrow> 64 word \<Rightarrow> bool" where
  "isValidAudioFormat stInteger stFloat sampleTy bits layout =
     (if sampleTy \<noteq> stInteger \<and> sampleTy \<noteq> stFloat then False
      else if bits < 16 \<or> bits > 32 then False
      else if sampleTy = stFloat \<and> bits \<noteq> 32 then False
      else if layout = 0 then False
      else True)"

text \<open>
  \<^verbatim>\<open>while (f.bytesPerSample * 8 < bitsPerSample) f.bytesPerSample <<= 1;\<close>
  The loop has no bound of its own, so it is a partial function: \<open>None\<close> is "never returns".
\<close>

partial_function (option) bytesPerSample_loop :: "int \<Rightarrow> int \<Rightarrow> int option" where
  "bytesPerSample_loop bits p =
     (if p * 8 < bits then bytesPerSample_loop bits (p * 2) else Some p)"

definition bitset_count :: "64 word \<Rightarrow> nat" where
  \<comment> \<open>\<^verbatim>\<open>std::bitset<64>::count()\<close>: the positions 0..63 whose bit is set\<close>
  "bitset_count w = length (filter (bit w) [0..<64])"

text \<open>
  The result is the returned \<^verbatim>\<open>bool\<close> together with the final value of the out-parameter
  \<^verbatim>\<open>f\<close>; \<open>None\<close> stands for a call that does not return.
\<close>

definition queryAudioFormat ::
  "int \<Rightarrow> int \<Rightarrow> VSAudioFormat \<Rightarrow> int \<Rightarrow> int \<Rightarrow> 64 word \<Rightarrow> (bool \<times> VSAudioFormat) option" where
  "queryAudioFormat stInteger stFloat f sampleTy bits layout =
     (if \<not> isValidAudioFormat stInteger stFloat sampleTy bits layout then Some (False, f)
      else
        (case bytesPerSample_loop bits 1 of
           None \<Rightarrow> None
         | Some bps \<Rightarrow>
             Some (True,
               VSAudioFormat_zero
                 \<lparr>sampleType := sampleTy,
                  bitsPerSample := bits,
                  bytesPerSample := bps,
                  numChannels := int (bitset_count layout),
                  channelLayout := layout\<rparr>)))"

section \<open>The memory pool\<close>

text \<open>
  \<^verbatim>\<open>size_t\<close> and pointers are words of the target's width \<open>'w\<close> (32 or 64 in practice):
  arithmetic wraps, comparisons are unsigned, and the null pointer is 0. The records are
  polymorphic in the type \<open>'s\<close> of sizes and addresses, which is always \<open>'w word\<close> below.
\<close>

record 's BlockHeader =
  size_hdr :: 's  \<comment> \<open>\<^verbatim>\<open>size\<close>\<close>
  large :: bool

text \<open>
  Memory as far as the pool reads and writes it: the block header stored at each address.
\<close>

type_synonym 'w memory = "'w word \<Rightarrow> 'w word BlockHeader"

record 's MemoryUse =
  used :: 's
  freeOnZero :: bool
  largePageEnabled :: bool
  memoryWarningIssued :: bool
  buffers :: "('s \<times> 's) list"
    \<comment> \<open>\<^verbatim>\<open>std::multimap<size_t, uint8_t *>\<close> in iteration order\<close>
  unusedBufferSize :: 's
  maxMemoryUse :: 's

datatype fatal =
    Fatal string  \<comment> \<open>\<^verbatim>\<open>VS_FATAL_ERROR\<close>, \<^verbatim>\<open>logMessage(mtFatal, ...)\<close>: the process ends\<close>
  | AssertionFailed string  \<comment> \<open>a failed \<^verbatim>\<open>assert\<close>, with its expression: the process is aborted\<close>

datatype 's os_free = FreeLargePage 's | AlignedFree 's

definition SIZE_MAX :: "'w::len word" where
  "SIZE_MAX = - 1"

definition sizeof_voidp :: "'w::len itself \<Rightarrow> nat" where
  "sizeof_voidp _ = LENGTH('w) div 8"

subsection \<open>The multimap of freed blocks\<close>

definition lower_bound :: "'k::linorder \<Rightarrow> ('k \<times> 'v) list \<Rightarrow> nat" where
  \<comment> \<open>position of the first entry whose key is not less than \<open>k\<close>; the length is \<^verbatim>\<open>end()\<close>\<close>
  "lower_bound k xs = length (takeWhile (\<lambda>e. fst e < k) xs)"

definition emplace :: "'k::linorder \<times> 'v \<Rightarrow> ('k \<times> 'v) list \<Rightarrow> ('k \<times> 'v) list" where
  \<comment> \<open>a multimap inserts after the entries whose key is not greater\<close>
  "emplace e xs =
     takeWhile (\<lambda>x. fst x \<le> fst e) xs @ e # dropWhile (\<lambda>x. fst x \<le> fst e) xs"

definition erase :: "nat \<Rightarrow> 'a list \<Rightarrow> 'a list" where
  "erase i xs = take i xs @ drop (Suc i) xs"

subsection \<open>Allocation\<close>

definition isGoodFit :: "'w::len word \<Rightarrow> 'w word \<Rightarrow> bool" where
  "isGoodFit requested actual \<longleftrightarrow> actual \<le> requested + requested div 8"

definition largePageSupported :: "'w::len itself \<Rightarrow> bool \<Rightarrow> bool" where
  \<comment> \<open>\<open>os\<close>: whether the operating system grants the large-page privilege\<close>
  "largePageSupported T os = (if sizeof_voidp T < 8 then False else os)"

text \<open>
  \<open>alignment\<close> is \<^verbatim>\<open>VSFrameRef::alignment\<close>, \<open>granularity\<close> is \<^verbatim>\<open>largePageSize()\<close>, and
  \<open>lp\<close> is the pointer that the large-page allocation call of the operating system gives
  (\<^verbatim>\<open>VirtualAlloc\<close> or \<^verbatim>\<open>vsh_aligned_malloc\<close>), 0 when it fails. The result is the returned
  pointer and the memory with the header written. The assertion of line 231, that the
  rounded size is a multiple of the granularity, holds for every granularity that is a
  power of two, as \<^verbatim>\<open>largePageSize()\<close> is (lemma \<open>rounded_multiple\<close>); it is not a branch of
  the model.
\<close>

definition allocateLargePage ::
  "'w::len word MemoryUse \<Rightarrow> 'w word \<Rightarrow> 'w word \<Rightarrow> 'w word \<Rightarrow> 'w memory \<Rightarrow> 'w word
     \<Rightarrow> 'w word \<times> 'w memory" where
  "allocateLargePage m alignment granularity lp mem bytes =
     (if \<not> largePageEnabled m then (0, mem)
      else
        let allocBytes = alignment + bytes;
            allocBytes = (allocBytes + (granularity - 1)) AND NOT (granularity - 1)
        in if \<not> isGoodFit bytes (allocBytes - alignment) then (0, mem)
           else if lp = 0 then (0, mem)
           else (lp, mem(lp := \<lparr>size_hdr = allocBytes - alignment, large = True\<rparr>)))"

text \<open>\<open>sp\<close> is the pointer that the standard \<^verbatim>\<open>vsh_aligned_malloc\<close> call gives, 0 when it fails.\<close>

definition allocateMemory ::
  "'w::len word MemoryUse \<Rightarrow> 'w word \<Rightarrow> 'w word \<Rightarrow> 'w word \<Rightarrow> 'w word \<Rightarrow> 'w memory \<Rightarrow> 'w word
     \<Rightarrow> fatal + 'w word \<times> 'w memory" where
  "allocateMemory m alignment granularity lp sp mem bytes =
     (case allocateLargePage m alignment granularity lp mem bytes of
        (ptr, mem') \<Rightarrow>
          if ptr \<noteq> 0 then Inr (ptr, mem')
          else if sp = 0 then Inl (Fatal ''out of memory'')
          else Inr (sp, mem'(sp := \<lparr>size_hdr = bytes, large = False\<rparr>)))"

definition freeMemory :: "'w::len memory \<Rightarrow> 'w word \<Rightarrow> 'w word os_free" where
  "freeMemory mem ptr = (if large (mem ptr) then FreeLargePage ptr else AlignedFree ptr)"

definition add :: "'w::len word MemoryUse \<Rightarrow> 'w word \<Rightarrow> 'w word MemoryUse" where
  "add m bytes = m\<lparr>used := used m + bytes\<rparr>"

text \<open>
  The result of \<^verbatim>\<open>allocBuffer\<close> is the returned pointer, the pool and the memory.
\<close>

definition allocBuffer ::
  "'w::len word MemoryUse \<Rightarrow> 'w word \<Rightarrow> 'w word \<Rightarrow> 'w word \<Rightarrow> 'w word \<Rightarrow> 'w memory \<Rightarrow> 'w word
     \<Rightarrow> fatal + 'w word \<times> 'w word MemoryUse \<times> 'w memory" where
  "allocBuffer m alignment granularity lp sp mem bytes =
     (let iter = lower_bound bytes (buffers m) in
      if iter \<noteq> length (buffers m) \<and> isGoodFit bytes (fst (buffers m ! iter)) then
        Inr (snd (buffers m ! iter) + alignment,
             m\<lparr>unusedBufferSize := unusedBufferSize m - fst (buffers m ! iter),
               buffers := erase iter (buffers m)\<rparr>,
             mem)
      else
        (case allocateMemory m alignment granularity lp sp mem bytes of
           Inl e \<Rightarrow> Inl e
         | Inr (buf, mem') \<Rightarrow> Inr (buf + alignment, m, mem')))"

text \<open>
  The eviction loop of \<^verbatim>\<open>freeBuffer\<close>. \<open>draws k\<close> is what the random generator gives at
  the \<open>k\<close>-th draw; \<^verbatim>\<open>uniform_int_distribution(0, size - 1)\<close> maps it into the range of
  positions. \<open>assertions\<close> says whether the build keeps \<^verbatim>\<open>assert\<close> (\<^verbatim>\<open>NDEBUG\<close> is not
  defined); then a failed assertion aborts the process. \<open>evict_body\<close> is one pass through
  the loop body: the pointer handed to \<^verbatim>\<open>freeMemory\<close> and the pool afterwards. The result
  of \<open>evict\<close> is the pool and the blocks given back to the operating system, in order.
\<close>

definition evict_body ::
  "bool \<Rightarrow> (nat \<Rightarrow> nat) \<Rightarrow> nat \<Rightarrow> 'w::len word MemoryUse
     \<Rightarrow> fatal + 'w word \<times> 'w word MemoryUse" where
  "evict_body assertions draws k m =
     (let m1 = (if \<not> memoryWarningIssued m then m\<lparr>memoryWarningIssued := True\<rparr> else m);
          iter = draws k mod length (buffers m1);
          e = buffers m1 ! iter
      in if assertions \<and> \<not> unusedBufferSize m1 \<ge> fst e
         then Inl (AssertionFailed ''unusedBufferSize >= iter->first'')
         else
           let m2 = m1\<lparr>unusedBufferSize := unusedBufferSize m1 - fst e\<rparr>;
               m3 = m2\<lparr>buffers := erase iter (buffers m2)\<rparr>
           in Inr (snd e, m3))"

function evict ::
  "bool \<Rightarrow> 'w::len memory \<Rightarrow> 'w word \<Rightarrow> (nat \<Rightarrow> nat) \<Rightarrow> nat \<Rightarrow> 'w word MemoryUse
     \<Rightarrow> fatal + 'w word MemoryUse \<times> 'w word os_free list" where
  "evict assertions mem memoryUsed draws k m =
     (if memoryUsed + unusedBufferSize m > maxMemoryUse m \<and> buffers m \<noteq> [] then
        (case evict_body assertions draws k m of
           Inl e \<Rightarrow> Inl e
         | Inr (ptr, m3) \<Rightarrow>
             (case evict assertions mem memoryUsed draws (Suc k) m3 of
                Inl e \<Rightarrow> Inl e
              | Inr (m', freed) \<Rightarrow> Inr (m', freeMemory mem ptr # freed)))
      else Inr (m, []))"
  by pat_completeness auto
termination
proof -
  have shorter: "length (buffers m3) < length (buffers m)"
    if "buffers m \<noteq> []" and "evict_body assertions draws k m = Inr (ptr, m3)"
    for assertions draws k ptr and m m3 :: "'b::len word MemoryUse"
  proof -
    have "draws k mod length (buffers m) < length (buffers m)"
      using that(1) by simp
    then show ?thesis
      using that(2) by (auto simp: evict_body_def erase_def Let_def split: if_splits)
  qed
  show ?thesis
    by (relation "measure (\<lambda>(assertions, mem, memoryUsed, draws, k, m). length (buffers m))")
       (auto dest: shorter)
qed

definition freeBuffer ::
  "bool \<Rightarrow> 'w::len word MemoryUse \<Rightarrow> 'w word \<Rightarrow> (nat \<Rightarrow> nat) \<Rightarrow> 'w memory \<Rightarrow> 'w word
     \<Rightarrow> fatal + 'w word MemoryUse \<times> 'w word os_free list" where
  "freeBuffer assertions m alignment draws mem buf =
     (if assertions \<and> buf = 0 then Inl (AssertionFailed ''buf'')
      else
        let buf = buf - alignment;
            header = mem buf
        in if size_hdr header = 0 then Inl (Fatal ''Memory corruption detected. Windows bug?'')
           else
             let m1 = m\<lparr>buffers := emplace (size_hdr header, buf) (buffers m)\<rparr>;
                 m2 = m1\<lparr>unusedBufferSize := unusedBufferSize m1 + size_hdr header\<rparr>;
                 memoryUsed = used m2
             in evict assertions mem memoryUsed draws 0 m2)"

subsection \<open>The limit\<close>

definition getLimit :: "'w::len word MemoryUse \<Rightarrow> 'w word" where
  "getLimit m = maxMemoryUse m"

text \<open>
  \<^verbatim>\<open>setMaxMemoryUse\<close> takes an \<^verbatim>\<open>int64_t\<close>; the comparison with \<^verbatim>\<open>SIZE_MAX\<close> is unsigned, at
  64 bits. The result is the returned value and the pool.
\<close>

definition setMaxMemoryUse ::
  "'w::len word MemoryUse \<Rightarrow> 64 word \<Rightarrow> 64 word \<times> 'w word MemoryUse" where
  "setMaxMemoryUse m bytes =
     (let m' = (if 0 <s bytes \<and> uint bytes \<le> uint (SIZE_MAX :: 'w word)
                then m\<lparr>maxMemoryUse := ucast bytes\<rparr> else m)
      in (ucast (maxMemoryUse m'), m'))"

text \<open>
  The constructor. \<open>os\<close> is the operating system's answer in \<^verbatim>\<open>largePageSupported\<close>;
  \<open>uninit\<close> is the indeterminate content of \<^verbatim>\<open>maxMemoryUse\<close> before its first assignment.
  Its assertion compares two constants of the build, the alignment and the size of the
  block header, and is left out.
\<close>

definition MemoryUse_ctor :: "bool \<Rightarrow> 'w::len word \<Rightarrow> 'w word MemoryUse" where
  "MemoryUse_ctor os uninit =
     (let m = \<lparr>used = 0, freeOnZero = False,
                largePageEnabled = largePageSupported TYPE('w) os,
                memoryWarningIssued = False, buffers = [], unusedBufferSize = 0,
                maxMemoryUse = uninit\<rparr>;
          m = m\<lparr>largePageEnabled := False\<rparr>;
          m = snd (setMaxMemoryUse m (1024 * 1024 * 1024))
      in if sizeof_voidp TYPE('w) \<ge> 8
         then snd (setMaxMemoryUse m (4 * 1024 * 1024 * 1024))
         else m)"

text \<open>The test that decides whether \<^verbatim>\<open>setMaxMemoryUse\<close> stores its argument.\<close>

definition setMaxMemoryUse_accepts :: "'w::len itself \<Rightarrow> 64 word \<Rightarrow> bool" where
  "setMaxMemoryUse_accepts T bytes \<longleftrightarrow> 0 <s bytes \<and> uint bytes \<le> uint (SIZE_MAX :: 'w word)"

text \<open>A sequence of \<^verbatim>\<open>setMaxMemoryUse\<close> calls, in order.\<close>

definition setLimit_calls :: "'w::len word MemoryUse \<Rightarrow> 64 word list \<Rightarrow> 'w word MemoryUse" where
  "setLimit_calls m bs = foldl (\<lambda>m b. snd (setMaxMemoryUse m b)) m bs"

text \<open>
  The specification's "value clamped to \<^verbatim>\<open>SIZE_MAX\<close>", for comparison with the code: the
  signed value itself unless it is above \<^verbatim>\<open>SIZE_MAX\<close>.
\<close>

definition clamped_to_SIZE_MAX :: "64 word \<Rightarrow> 'w::len word" where
  "clamped_to_SIZE_MAX v =
     (if uint (SIZE_MAX :: 'w word) < sint v then SIZE_MAX else word_of_int (sint v))"

subsection \<open>Accounting and the states a pool goes through\<close>

text \<open>
  \<^verbatim>\<open>subtract\<close> and \<^verbatim>\<open>signalFree\<close> may end with \<^verbatim>\<open>delete this\<close>: the result \<open>None\<close> is the
  pool destroyed.
\<close>

definition subtract :: "'w::len word MemoryUse \<Rightarrow> 'w word \<Rightarrow> 'w word MemoryUse option" where
  "subtract m bytes =
     (let tmp = used m - bytes; m' = m\<lparr>used := tmp\<rparr>
      in if freeOnZero m' \<and> tmp = 0 then None else Some m')"

definition signalFree :: "'w::len word MemoryUse \<Rightarrow> 'w word MemoryUse option" where
  "signalFree m =
     (let m' = m\<lparr>freeOnZero := True\<rparr>
      in if used m' = 0 then None else Some m')"

text \<open>
  The pools that exist: the constructor's result, and what any member function that
  writes to the pool makes of a pool that exists, whatever the memory contents,
  the allocator's answers and the random draws are, in a build with assertions or
  without.
\<close>

inductive pool_state :: "'w::len word \<Rightarrow> 'w word \<Rightarrow> 'w word MemoryUse \<Rightarrow> bool"
  for alignment granularity where
    constructed: "pool_state alignment granularity (MemoryUse_ctor os uninit)"
  | after_allocBuffer:
      "pool_state alignment granularity m \<Longrightarrow>
       allocBuffer m alignment granularity lp sp mem bytes = Inr (buf, m', mem') \<Longrightarrow>
       pool_state alignment granularity m'"
  | after_freeBuffer:
      "pool_state alignment granularity m \<Longrightarrow>
       freeBuffer assertions m alignment draws mem buf = Inr (m', freed) \<Longrightarrow>
       pool_state alignment granularity m'"
  | after_setMaxMemoryUse:
      "pool_state alignment granularity m \<Longrightarrow>
       pool_state alignment granularity (snd (setMaxMemoryUse m bytes))"
  | after_add:
      "pool_state alignment granularity m \<Longrightarrow> pool_state alignment granularity (add m bytes)"
  | after_subtract:
      "pool_state alignment granularity m \<Longrightarrow> subtract m bytes = Some m' \<Longrightarrow>
       pool_state alignment granularity m'"
  | after_signalFree:
      "pool_state alignment granularity m \<Longrightarrow> signalFree m = Some m' \<Longrightarrow>
       pool_state alignment granularity m'"

subsection \<open>The eviction rule in the specification's words\<close>

text \<open>
  These definitions follow the specification, not the code, and the theorem on
  \<^verbatim>\<open>freeBuffer\<close> compares the code with them. \<open>pushed\<close> is the pool after the freed block is
  pushed into the map and \<^verbatim>\<open>unusedBufferSize\<close> is updated. A pool is over its limit when
  \<open>inUse + unusedBufferSize\<close> exceeds the limit and the map is not empty. \<open>remove_block\<close>
  takes the block at a position out of the map and its size out of \<^verbatim>\<open>unusedBufferSize\<close>.
  \<open>after_evictions draws n\<close> is the pool after \<open>n\<close> blocks were removed one after the other,
  the \<open>k\<close>-th at the position that the \<open>k\<close>-th draw gives in the map as it is then, whether
  the pool is over its limit or not; \<open>evicted draws k\<close> is the \<open>k\<close>-th block removed.
\<close>

definition pushed :: "'w::len word MemoryUse \<Rightarrow> 'w word \<Rightarrow> 'w word \<Rightarrow> 'w word MemoryUse" where
  \<comment> \<open>the map is ordered by size; the block goes behind the blocks that are not larger\<close>
  "pushed m sz blk =
     m\<lparr>buffers := takeWhile (\<lambda>e. fst e \<le> sz) (buffers m) @ (sz, blk)
                     # dropWhile (\<lambda>e. fst e \<le> sz) (buffers m),
       unusedBufferSize := unusedBufferSize m + sz\<rparr>"

definition over_limit :: "'w::len word MemoryUse \<Rightarrow> bool" where
  "over_limit m \<longleftrightarrow> maxMemoryUse m < used m + unusedBufferSize m \<and> buffers m \<noteq> []"

definition remove_block :: "nat \<Rightarrow> 'w::len word MemoryUse \<Rightarrow> 'w word MemoryUse" where
  "remove_block i m =
     m\<lparr>buffers := take i (buffers m) @ drop (Suc i) (buffers m),
       unusedBufferSize := unusedBufferSize m - fst (buffers m ! i)\<rparr>"

primrec after_evictions :: "(nat \<Rightarrow> nat) \<Rightarrow> nat \<Rightarrow> 'w::len word MemoryUse \<Rightarrow> 'w word MemoryUse" where
  "after_evictions draws 0 m = m"
| "after_evictions draws (Suc k) m =
     remove_block (draws k mod length (buffers (after_evictions draws k m)))
       (after_evictions draws k m)"

definition evicted :: "(nat \<Rightarrow> nat) \<Rightarrow> nat \<Rightarrow> 'w::len word MemoryUse \<Rightarrow> 'w word \<times> 'w word" where
  "evicted draws k m =
     buffers (after_evictions draws k m) ! (draws k mod length (buffers (after_evictions draws k m)))"

subsection \<open>An example pool\<close>

text \<open>A pool and a memory at which the theorems are instantiated.\<close>

definition example_pool :: "64 word MemoryUse" where
  "example_pool = \<lparr>used = 100, freeOnZero = False, largePageEnabled = False, memoryWarningIssued = False,
     buffers = [(32, 2000), (64, 1000), (128, 3000)], unusedBufferSize = 224, maxMemoryUse = 300\<rparr>"

definition example_memory :: "64 memory" where
  "example_memory = (\<lambda>_. \<lparr>size_hdr = 32, large = False\<rparr>)"

section \<open>Audio nodes\<close>

record VSAudioInfo =
  format :: VSAudioFormat
  sampleRate :: int
  numSamples :: int  \<comment> \<open>\<^verbatim>\<open>int64_t\<close>\<close>
  numFrames :: int  \<comment> \<open>\<^verbatim>\<open>int\<close>\<close>

definition isValidAudioInfo :: "int \<Rightarrow> int \<Rightarrow> VSAudioInfo \<Rightarrow> bool" where
  "isValidAudioInfo stInteger stFloat ai =
     (if \<not> isValidAudioFormat stInteger stFloat (sampleType (format ai))
            (bitsPerSample (format ai)) (channelLayout (format ai)) then False
      else if numSamples ai < 1 \<or> sampleRate ai < 1 then False
      else True)"

text \<open>
  Modelled from the spec: \<^verbatim>\<open>VS_AUDIO_FRAME_SAMPLES\<close> is a macro of the public header, which is
  not among the sources; the specification gives its value, 3072 samples per frame.
\<close>

definition VS_AUDIO_FRAME_SAMPLES :: int where
  "VS_AUDIO_FRAME_SAMPLES = 3072"

definition INT_MAX :: int where
  \<comment> \<open>\<^verbatim>\<open>std::numeric_limits<int>::max()\<close>, \<^verbatim>\<open>int\<close> being 32 bits wide\<close>
  "INT_MAX = 2147483647"

text \<open>
  Machine arithmetic on \<open>int\<close> with the wrap-around written out: \<open>wrap_int64\<close> and
  \<open>wrap_int32\<close> reduce a value to the two's complement range, \<open>c_div\<close> is the division of
  C++, which truncates towards zero.
\<close>

definition wrap_int64 :: "int \<Rightarrow> int" where
  "wrap_int64 x = (x + 2 ^ 63) mod 2 ^ 64 - 2 ^ 63"

definition wrap_int32 :: "int \<Rightarrow> int" where
  "wrap_int32 x = (x + 2 ^ 31) mod 2 ^ 32 - 2 ^ 31"

definition c_div :: "int \<Rightarrow> int \<Rightarrow> int" where
  "c_div a b = sgn a * sgn b * (\<bar>a\<bar> div \<bar>b\<bar>)"

text \<open>
  The node flags \<^verbatim>\<open>nfNoCache\<close>, \<^verbatim>\<open>nfIsCache\<close>, \<^verbatim>\<open>nfMakeLinear\<close> and \<^verbatim>\<open>nfFrameReady\<close> are
  enumerators of the public header; their values are parameters of the constructor.
\<close>

record VSNodeFlags =
  nfNoCache :: int
  nfIsCache :: int
  nfMakeLinear :: int
  nfFrameReady :: int

datatype VSMediaType = mtVideo | mtAudio

datatype VSException =
    UnknownFlags string  \<comment> \<open>"Filter \<open>name\<close> specified unknown flags"\<close>
  | IllegalFlagCombination string
  | NoOutputs string  \<comment> \<open>"Filter \<open>name\<close> needs to have at least one output"\<close>
  | InvalidAudioInfo string  \<comment> \<open>"The VSAudioInfo structure passed by \<open>name\<close> is invalid."\<close>
  | TooManySamples string int int
      \<comment> \<open>"Filter \<open>name\<close> specified \<open>n\<close> output samples but \<open>max\<close> samples is the upper limit"\<close>

record VSNode =
  refcount_node :: int
  nodeType :: VSMediaType
  name_node :: string
  flags_node :: int
  serialFrame :: int
  ai :: "VSAudioInfo list"

text \<open>
  The loop over the outputs in the audio constructor, lines 880 to 890: each
  \<^verbatim>\<open>VSAudioInfo\<close> is checked, copied, and given its frame count; the first failure throws.
\<close>

fun audio_outputs :: "int \<Rightarrow> int \<Rightarrow> string \<Rightarrow> VSAudioInfo list \<Rightarrow> VSException + VSAudioInfo list" where
  "audio_outputs stInteger stFloat name [] = Inr []"
| "audio_outputs stInteger stFloat name (a # rest) =
     (if \<not> isValidAudioInfo stInteger stFloat a then Inl (InvalidAudioInfo name)
      else
        let maxSamples = wrap_int64 (INT_MAX * VS_AUDIO_FRAME_SAMPLES) in
        if numSamples a > maxSamples then Inl (TooManySamples name (numSamples a) maxSamples)
        else
          let last = a\<lparr>numFrames :=
                wrap_int32
                  (c_div (wrap_int64 (wrap_int64 (numSamples a + VS_AUDIO_FRAME_SAMPLES) - 1))
                     VS_AUDIO_FRAME_SAMPLES)\<rparr>
          in (case audio_outputs stInteger stFloat name rest of
                Inl e \<Rightarrow> Inl e
              | Inr outs \<Rightarrow> Inr (last # outs)))"

text \<open>
  The audio constructor of \<^verbatim>\<open>VSNode\<close>. \<open>ais\<close> is the array \<^verbatim>\<open>ai\<close>, of which the first
  \<open>numOutputs\<close> entries are read.
\<close>

definition VSNode_audio ::
  "VSNodeFlags \<Rightarrow> int \<Rightarrow> int \<Rightarrow> string \<Rightarrow> VSAudioInfo list \<Rightarrow> int \<Rightarrow> int \<Rightarrow> VSException + VSNode" where
  "VSNode_audio nf stInteger stFloat name ais numOutputs flags =
     (if flags AND NOT (nfNoCache nf OR nfIsCache nf OR nfMakeLinear nf OR nfFrameReady nf) \<noteq> 0
      then Inl (UnknownFlags name)
      else if flags AND nfIsCache nf \<noteq> 0 \<and> \<not> (flags AND nfNoCache nf \<noteq> 0)
      then Inl (IllegalFlagCombination name)
      else if numOutputs < 1 then Inl (NoOutputs name)
      else
        (case audio_outputs stInteger stFloat name (take (nat numOutputs) ais) of
           Inl e \<Rightarrow> Inl e
         | Inr outs \<Rightarrow>
             Inr \<lparr>refcount_node = numOutputs, nodeType = mtAudio, name_node = name,
                  flags_node = flags, serialFrame = - 1, ai = outs\<rparr>))"

text \<open>An audio output of 3073 samples and the flag values, for instantiating the theorems.\<close>

definition example_audio_info :: VSAudioInfo where
  "example_audio_info =
     \<lparr>format = \<lparr>sampleType = 0, bitsPerSample = 16, bytesPerSample = 2, numChannels = 2,
                 channelLayout = 3\<rparr>,
      sampleRate = 48000, numSamples = 3073, numFrames = 0\<rparr>"

definition example_flags :: VSNodeFlags where
  "example_flags = \<lparr>nfNoCache = 1, nfIsCache = 2, nfMakeLinear = 4, nfFrameReady = 8\<rparr>"

section \<open>Identifiers and argument strings\<close>

text \<open>
  Characters are compared by their code, as the ASCII ranges of the source are; a
  \<^verbatim>\<open>char\<close> above 127 is outside every range whether \<^verbatim>\<open>char\<close> is signed or not.
\<close>

definition isAlpha :: "char \<Rightarrow> bool" where
  "isAlpha c \<longleftrightarrow> (c \<ge> CHR ''a'' \<and> c \<le> CHR ''z'') \<or> (c \<ge> CHR ''A'' \<and> c \<le> CHR ''Z'')"

definition isAlphaNumUnderscore :: "char \<Rightarrow> bool" where
  "isAlphaNumUnderscore c \<longleftrightarrow>
     (c \<ge> CHR ''a'' \<and> c \<le> CHR ''z'') \<or> (c \<ge> CHR ''A'' \<and> c \<le> CHR ''Z'') \<or>
     (c \<ge> CHR ''0'' \<and> c \<le> CHR ''9'') \<or> c = CHR ''_''"

fun isValidIdentifier :: "string \<Rightarrow> bool" where
  "isValidIdentifier [] = False"
| "isValidIdentifier (c # cs) = (if \<not> isAlpha c then False else list_all isAlphaNumUnderscore cs)"

text \<open>
  The regular expression \<^verbatim>\<open>[A-Za-z][A-Za-z0-9_]*\<close> of the specification, read as a language:
  one character of the first class, then any number of characters of the second.
\<close>

definition regex_letter :: "char set" where
  "regex_letter = {CHR ''A'' .. CHR ''Z''} \<union> {CHR ''a'' .. CHR ''z''}"

definition regex_word_char :: "char set" where
  "regex_word_char = {CHR ''A'' .. CHR ''Z''} \<union> {CHR ''a'' .. CHR ''z''} \<union> {CHR ''0'' .. CHR ''9''} \<union> {CHR ''_''}"

definition matches_identifier_regex :: "string \<Rightarrow> bool" where
  "matches_identifier_regex s \<longleftrightarrow>
     (\<exists>c cs. s = c # cs \<and> c \<in> regex_letter \<and> set cs \<subseteq> regex_word_char)"

subsection \<open>Splitting\<close>

datatype empties_t = empties_ok | no_empties

text \<open>
  The \<^verbatim>\<open>split\<close> template. The argument \<open>s\<close> is the part of the string from position
  \<^verbatim>\<open>next + 1\<close> on, at the head of the \<^verbatim>\<open>do\<close> loop: \<^verbatim>\<open>find_first_not_of\<close> drops the leading
  delimiters, \<^verbatim>\<open>find_first_of\<close> ends the token at the next delimiter, and the loop goes on
  behind that delimiter unless the end of the string was reached.
\<close>

function split :: "string \<Rightarrow> string \<Rightarrow> empties_t \<Rightarrow> string list" where
  "split s delimiters empties =
     (let s1 = (if empties = no_empties then dropWhile (\<lambda>c. c \<in> set delimiters) s else s) in
      if empties = no_empties \<and> s1 = [] then []
      else
        let tok = takeWhile (\<lambda>c. c \<notin> set delimiters) s1;
            after = dropWhile (\<lambda>c. c \<notin> set delimiters) s1
        in tok # (case after of [] \<Rightarrow> [] | d # rest \<Rightarrow> split rest delimiters empties))"
  by pat_completeness auto
termination
proof -
  have shorter: "length rest < length s"
    if "dropWhile Q (if b then dropWhile P s else s) = d # rest"
    for rest s :: string and d b P Q
  proof -
    have "length (d # rest) \<le> length (if b then dropWhile P s else s)"
      unfolding that [symmetric] by (rule length_dropWhile_le)
    also have "\<dots> \<le> length s"
      by (simp add: length_dropWhile_le)
    finally show ?thesis
      by simp
  qed
  show ?thesis
    by (relation "measure (\<lambda>(s, delimiters, empties). length s)")
       (auto dest!: shorter [OF sym] simp del: dropWhile_eq_Cons_conv)
qed

subsection \<open>Parsing an argument string\<close>

datatype VSPropType =
  ptUnset | ptInt | ptFloat | ptData | ptFunction | ptVideoNode | ptAudioNode | ptVideoFrame
  | ptAudioFrame

record FilterArgument =
  name_fa :: string
  type_fa :: VSPropType
  arr_fa :: bool
  empty_fa :: bool
  opt_fa :: bool

datatype parse_error =
    Incomplete string
      \<comment> \<open>"Invalid argument specifier '\<open>arg\<close>'. It appears to be incomplete."\<close>
  | InvalidType string string
      \<comment> \<open>"Argument '\<open>argName\<close>' has invalid type '\<open>typeName\<close>'."\<close>
  | DuplicateSpecifier string string
      \<comment> \<open>"Argument '\<open>argName\<close>' has duplicate argument specifier '\<open>part\<close>'"\<close>
  | UnknownModifier string string
      \<comment> \<open>"Argument '\<open>argName\<close>' has unknown argument modifier '\<open>part\<close>'"\<close>
  | IllegalName string
      \<comment> \<open>"Argument name '\<open>argName\<close>' contains illegal characters."\<close>
  | EmptyNotArray string
      \<comment> \<open>"Argument '\<open>argName\<close>' is not an array. Only array arguments can have the empty flag set."\<close>

text \<open>
  \<^verbatim>\<open>VAPOURSYNTH3_API_MAJOR\<close> is a macro of the public header; it is the parameter \<open>v3\<close> of
  the functions below. An \<open>apiMajor\<close> above it is the current generation, one equal to it
  the legacy generation.
\<close>

definition parseTypeName :: "int \<Rightarrow> int \<Rightarrow> string \<Rightarrow> VSPropType option" where
  "parseTypeName v3 apiMajor typeName =
     (if typeName = ''int'' then Some ptInt
      else if typeName = ''float'' then Some ptFloat
      else if typeName = ''data'' then Some ptData
      else if (typeName = ''vnode'' \<and> apiMajor > v3) \<or> (apiMajor = v3 \<and> typeName = ''clip'')
        then Some ptVideoNode
      else if typeName = ''anode'' \<and> apiMajor > v3 then Some ptAudioNode
      else if (typeName = ''vframe'' \<and> apiMajor > v3) \<or> (apiMajor = v3 \<and> typeName = ''frame'')
        then Some ptVideoFrame
      else if typeName = ''aframe'' \<and> apiMajor > v3 then Some ptAudioFrame
      else if typeName = ''func'' then Some ptFunction
      else None)"

text \<open>The loop over \<^verbatim>\<open>argParts[2..]\<close>, carrying the flags \<^verbatim>\<open>opt\<close> and \<^verbatim>\<open>empty\<close>.\<close>

fun parseModifiers :: "string \<Rightarrow> string list \<Rightarrow> bool \<Rightarrow> bool \<Rightarrow> parse_error + bool \<times> bool" where
  "parseModifiers argName [] isOpt isEmpty = Inr (isOpt, isEmpty)"
| "parseModifiers argName (part # parts) isOpt isEmpty =
     (if part = ''opt'' then
        (if isOpt then Inl (DuplicateSpecifier argName part)
         else parseModifiers argName parts True isEmpty)
      else if part = ''empty'' then
        (if isEmpty then Inl (DuplicateSpecifier argName part)
         else parseModifiers argName parts isOpt True)
      else Inl (UnknownModifier argName part))"

text \<open>The body of the loop over the argument list: one specifier.\<close>

definition parseArg :: "int \<Rightarrow> int \<Rightarrow> string \<Rightarrow> parse_error + FilterArgument" where
  "parseArg v3 apiMajor arg =
     (let argParts = split arg '':'' no_empties in
      if length argParts < 2 then Inl (Incomplete arg)
      else
        let argName = argParts ! 0;
            typeName = argParts ! 1;
            isArr = (length typeName > 2 \<and> drop (length typeName - 2) typeName = ''[]'');
            typeName = (if isArr then take (length typeName - 2) typeName else typeName)
        in case parseTypeName v3 apiMajor typeName of
             None \<Rightarrow> Inl (InvalidType argName typeName)
           | Some ty \<Rightarrow>
               (case parseModifiers argName (drop 2 argParts) False False of
                  Inl e \<Rightarrow> Inl e
                | Inr (isOpt, isEmpty) \<Rightarrow>
                    if \<not> isValidIdentifier argName then Inl (IllegalName argName)
                    else if isEmpty \<and> \<not> isArr then Inl (EmptyNotArray argName)
                    else Inr \<lparr>name_fa = argName, type_fa = ty, arr_fa = isArr,
                              empty_fa = isEmpty, opt_fa = isOpt\<rparr>))"

fun parseArgList :: "int \<Rightarrow> int \<Rightarrow> string list \<Rightarrow> parse_error + FilterArgument list" where
  "parseArgList v3 apiMajor [] = Inr []"
| "parseArgList v3 apiMajor (arg # argList) =
     (case parseArg v3 apiMajor arg of
        Inl e \<Rightarrow> Inl e
      | Inr fa \<Rightarrow>
          (case parseArgList v3 apiMajor argList of
             Inl e \<Rightarrow> Inl e
           | Inr fas \<Rightarrow> Inr (fa # fas)))"

text \<open>
  \<^verbatim>\<open>parseArgString\<close> with an empty \<^verbatim>\<open>argsOut\<close>, as the constructor of
  \<^verbatim>\<open>VSPluginFunction\<close> calls it; \<open>Inl\<close> is the \<^verbatim>\<open>std::runtime_error\<close> thrown.
\<close>

definition parseArgString :: "int \<Rightarrow> string \<Rightarrow> int \<Rightarrow> parse_error + FilterArgument list" where
  "parseArgString v3 argString apiMajor =
     parseArgList v3 apiMajor (split argString '';'' no_empties)"

subsection \<open>Emitting the legacy argument string\<close>

text \<open>
  \<^verbatim>\<open>getV3ArgString\<close>. Its assertions (no audio type, no type outside the \<^verbatim>\<open>switch\<close>) are
  part of the model: \<open>None\<close> is a failed assertion.
\<close>

definition v3TypeName :: "VSPropType \<Rightarrow> string option" where
  "v3TypeName ty =
     (case ty of
        ptInt \<Rightarrow> Some ''int''
      | ptFloat \<Rightarrow> Some ''float''
      | ptData \<Rightarrow> Some ''data''
      | ptVideoNode \<Rightarrow> Some ''clip''
      | ptVideoFrame \<Rightarrow> Some ''frame''
      | ptFunction \<Rightarrow> Some ''func''
      | _ \<Rightarrow> None)"

fun getV3ArgString_loop :: "FilterArgument list \<Rightarrow> string \<Rightarrow> string option" where
  "getV3ArgString_loop [] tmp = Some tmp"
| "getV3ArgString_loop (iter # rest) tmp =
     (if type_fa iter = ptAudioNode \<or> type_fa iter = ptAudioFrame then None
      else
        (case v3TypeName (type_fa iter) of
           None \<Rightarrow> None
         | Some tn \<Rightarrow>
             getV3ArgString_loop rest
               (tmp @ name_fa iter @ '':'' @ tn
                  @ (if arr_fa iter then ''[]'' else '''')
                  @ (if opt_fa iter then '':opt'' else '''')
                  @ (if empty_fa iter then '':empty'' else '''')
                  @ '';'')))"

definition getV3ArgString :: "FilterArgument list \<Rightarrow> string option" where
  "getV3ArgString args = getV3ArgString_loop args ''''"

section \<open>Property maps as \<^verbatim>\<open>invoke\<close> sees them\<close>

text \<open>
  Of an array stored in a \<^verbatim>\<open>VSMap\<close> the invocation protocol reads the type, the number of
  values and, for arrays of video nodes, whether one of the nodes has an output in a
  compat colour family (the test inside \<^verbatim>\<open>hasCompatNodes\<close>). A map is the list of its
  entries in iteration order.
\<close>

record VSArrayBase =
  type_arr :: VSPropType
  size_arr :: nat
  compatNode :: bool

type_synonym VSMap = "(string \<times> VSArrayBase) list"





section \<open>Plugins\<close>

record VSPluginFunction =
  name_pf :: string
  argString :: string
  returnType :: string
  args_pf :: "FilterArgument list"
  retArgs :: "FilterArgument list"
  func :: "VSMap \<Rightarrow> VSMap"
    \<comment> \<open>the filter function: the output map it leaves for an input map\<close>

definition VSPluginFunction_ctor ::
  "int \<Rightarrow> string \<Rightarrow> string \<Rightarrow> string \<Rightarrow> (VSMap \<Rightarrow> VSMap) \<Rightarrow> int
     \<Rightarrow> parse_error + VSPluginFunction" where
  "VSPluginFunction_ctor v3 name argStr retType argsFunc apiMajor =
     (case parseArgString v3 argStr apiMajor of
        Inl e \<Rightarrow> Inl e
      | Inr as \<Rightarrow>
          (case parseArgString v3 retType apiMajor of
             Inl e \<Rightarrow> Inl e
           | Inr rs \<Rightarrow>
               Inr \<lparr>name_pf = name, argString = argStr, returnType = retType,
                    args_pf = as, retArgs = rs, func = argsFunc\<rparr>))"

record VSPlugin =
  apiMajor_pl :: int
  readOnly :: bool
  compat :: bool
  id_pl :: string
  funcs :: "string \<rightharpoonup> VSPluginFunction"

text \<open>
  \<^verbatim>\<open>registerFunction\<close>: the returned \<^verbatim>\<open>bool\<close> and the plugin afterwards. The messages that
  go to the log are left out.
\<close>

definition registerFunction ::
  "int \<Rightarrow> VSPlugin \<Rightarrow> string \<Rightarrow> string \<Rightarrow> string \<Rightarrow> (VSMap \<Rightarrow> VSMap)
     \<Rightarrow> bool \<times> VSPlugin" where
  "registerFunction v3 p name args retType argsFunc =
     (if readOnly p then (False, p)
      else if \<not> isValidIdentifier name then (False, p)
      else if funcs p name \<noteq> None then (False, p)
      else
        (case VSPluginFunction_ctor v3 name args retType argsFunc (apiMajor_pl p) of
           Inl e \<Rightarrow> (False, p)
         | Inr f \<Rightarrow> (True, p\<lparr>funcs := (funcs p)(name \<mapsto> f)\<rparr>)))"

text \<open>A plugin of the current generation with no function registered, for instantiating the theorems.\<close>

definition example_plugin :: VSPlugin where
  "example_plugin = \<lparr>apiMajor_pl = 4, readOnly = False, compat = False, id_pl = ''com.example'',
     funcs = Map.empty\<rparr>"

subsection \<open>The text emitted for one argument\<close>

text \<open>
  What one pass through the loop of \<^verbatim>\<open>getV3ArgString\<close> appends, without the closing
  semicolon, given the type name; the arguments for which the assertions hold and that
  a parse can produce; and the text with the type name filled in.
\<close>

definition v3_arg_text :: "FilterArgument \<Rightarrow> string \<Rightarrow> string" where
  "v3_arg_text a tn =
     name_fa a @ '':'' @ tn
       @ (if arr_fa a then ''[]'' else '''')
       @ (if opt_fa a then '':opt'' else '''')
       @ (if empty_fa a then '':empty'' else '''')"

definition v3_compatible_arg :: "FilterArgument \<Rightarrow> bool" where
  "v3_compatible_arg a \<longleftrightarrow>
     isValidIdentifier (name_fa a) \<and> (empty_fa a \<longrightarrow> arr_fa a) \<and>
     type_fa a \<in> {ptInt, ptFloat, ptData, ptVideoNode, ptVideoFrame, ptFunction}"

definition v3_arg_emitted :: "FilterArgument \<Rightarrow> string" where
  "v3_arg_emitted a = (case v3TypeName (type_fa a) of Some tn \<Rightarrow> v3_arg_text a tn | None \<Rightarrow> [])"

text \<open>Two arguments for instantiating the theorems.\<close>

definition example_vnode_arg :: FilterArgument where
  "example_vnode_arg = \<lparr>name_fa = ''c'', type_fa = ptVideoNode, arr_fa = False, empty_fa = False, opt_fa = False\<rparr>"

definition example_anode_arg :: FilterArgument where
  "example_anode_arg = \<lparr>name_fa = ''a'', type_fa = ptAudioNode, arr_fa = False, empty_fa = False, opt_fa = False\<rparr>"

section \<open>Invocation\<close>





text \<open>
  The outcome of \<^verbatim>\<open>invoke\<close>: \<open>Failed msg\<close> is the map that carries only the error \<open>msg\<close>,
  returned without the filter function having been called; \<open>Returned out\<close> is the filter
  function's output map; \<open>FatalAfterCall\<close> is the fatal log message after the call, which
  ends the process.
\<close>

datatype invoke_result = Failed string | Returned VSMap | FatalAfterCall string





section \<open>Frames and plane data\<close>

text \<open>
  A \<^verbatim>\<open>VSPlaneData\<close> object: its reference count, the pointer to its buffer, the size and
  the bytes the buffer holds. The objects live in a store that maps the address of an
  object to the object; a frame holds addresses, \<open>None\<close> for the null pointer. The pool
  calls in the constructor and destructor of \<^verbatim>\<open>VSPlaneData\<close> are those of the section on
  the memory pool and are not repeated here: the buffer that the allocation returns is a
  parameter, and destroying an object takes it out of the store.
\<close>

record 's VSPlaneData =
  refcount_pd :: nat
  data_pd :: 's
  size_pd :: 's
  bytes_pd :: "8 word list"

type_synonym 'w plane_store = "nat \<rightharpoonup> 'w word VSPlaneData"

record VSFrameRef =
  contentType :: VSMediaType
  data_fr :: "nat option list"  \<comment> \<open>\<^verbatim>\<open>VSPlaneData *data[3]\<close>\<close>
  numPlanes :: int
  width_fr :: int
  height_fr :: int
  stride_fr :: "int list"  \<comment> \<open>\<^verbatim>\<open>ptrdiff_t stride[3]\<close>\<close>

datatype frame_error =
    FatalError string  \<comment> \<open>\<^verbatim>\<open>logMessage(mtFatal, ...)\<close>\<close>
  | InvalidPointer  \<comment> \<open>a null or dangling pointer is dereferenced\<close>

definition unique :: "'s VSPlaneData \<Rightarrow> bool" where
  "unique pd \<longleftrightarrow> refcount_pd pd = 1"

definition add_ref :: "'w::len plane_store \<Rightarrow> nat option \<Rightarrow> 'w plane_store option" where
  "add_ref st ptr =
     (case ptr of
        None \<Rightarrow> None
      | Some i \<Rightarrow>
          (case st i of
             None \<Rightarrow> None
           | Some pd \<Rightarrow> Some (st(i \<mapsto> pd\<lparr>refcount_pd := refcount_pd pd + 1\<rparr>))))"

definition release :: "'w::len plane_store \<Rightarrow> nat option \<Rightarrow> 'w plane_store option" where
  \<comment> \<open>\<^verbatim>\<open>if (!--refcount) delete this;\<close>\<close>
  "release st ptr =
     (case ptr of
        None \<Rightarrow> None
      | Some i \<Rightarrow>
          (case st i of
             None \<Rightarrow> None
           | Some pd \<Rightarrow>
               if refcount_pd pd - 1 = 0 then Some (st(i := None))
               else Some (st(i \<mapsto> pd\<lparr>refcount_pd := refcount_pd pd - 1\<rparr>))))"

text \<open>
  The copy constructor of \<^verbatim>\<open>VSPlaneData\<close>: \<open>buf\<close> is the pointer that \<^verbatim>\<open>allocBuffer\<close> (or
  \<^verbatim>\<open>vsh_aligned_malloc\<close>) returns for \<open>size\<close> bytes, 0 when there is no memory.
\<close>

definition VSPlaneData_copy :: "'w::len word VSPlaneData \<Rightarrow> 'w word \<Rightarrow> frame_error + 'w word VSPlaneData" where
  "VSPlaneData_copy d buf =
     (if buf = 0 then
        Inl (FatalError ''Failed to allocate memory for plane in copy constructor. Out of memory.'')
      else
        Inr \<lparr>refcount_pd = 1, data_pd = buf, size_pd = size_pd d,
             bytes_pd = take (unat (size_pd d)) (bytes_pd d)\<rparr>)"

text \<open>The copy constructor of \<^verbatim>\<open>VSFrameRef\<close>, which \<^verbatim>\<open>copyFrame\<close> calls: the copy and the store.\<close>

definition VSFrameRef_copy :: "VSFrameRef \<Rightarrow> 'w::len plane_store \<Rightarrow> (VSFrameRef \<times> 'w plane_store) option" where
  "VSFrameRef_copy f st =
     (case add_ref st (data_fr f ! 0) of
        None \<Rightarrow> None
      | Some st0 \<Rightarrow>
          (case (if data_fr f ! 1 \<noteq> None
                 then (case add_ref st0 (data_fr f ! 1) of
                         None \<Rightarrow> None
                       | Some st1 \<Rightarrow> add_ref st1 (data_fr f ! 2))
                 else Some st0) of
             None \<Rightarrow> None
           | Some st2 \<Rightarrow>
               Some (\<lparr>contentType = contentType f,
                      data_fr = [data_fr f ! 0, data_fr f ! 1, data_fr f ! 2],
                      numPlanes = numPlanes f, width_fr = width_fr f, height_fr = height_fr f,
                      stride_fr = [stride_fr f ! 0, stride_fr f ! 1, stride_fr f ! 2]\<rparr>,
                     st2)))"

text \<open>Reading the buffer pointer of the plane data at an address.\<close>

definition data_of :: "'w::len plane_store \<Rightarrow> nat option \<Rightarrow> frame_error + 'w word" where
  "data_of st ptr =
     (case ptr of
        None \<Rightarrow> Inl InvalidPointer
      | Some i \<Rightarrow> (case st i of None \<Rightarrow> Inl InvalidPointer | Some pd \<Rightarrow> Inr (data_pd pd)))"

text \<open>\<open>guardSpace\<close> is \<^verbatim>\<open>VSFrameRef::guardSpace\<close>, a constant of the header.\<close>

definition getReadPtr :: "VSFrameRef \<Rightarrow> int \<Rightarrow> 'w::len plane_store \<Rightarrow> 'w word \<Rightarrow> frame_error + 'w word" where
  "getReadPtr f plane st guardSpace =
     (if plane < 0 \<or> plane \<ge> numPlanes f then
        Inl (FatalError ''Requested read pointer for nonexistent plane'')
      else if contentType f = mtVideo then
        (case data_of st (data_fr f ! nat plane) of
           Inl e \<Rightarrow> Inl e
         | Inr d \<Rightarrow> Inr (d + guardSpace))
      else
        (case data_of st (data_fr f ! 0) of
           Inl e \<Rightarrow> Inl e
         | Inr d \<Rightarrow> Inr (d + guardSpace + word_of_int (plane * (stride_fr f ! 0)))))"

text \<open>
  The copy-on-write step of \<^verbatim>\<open>getWritePtr\<close> on \<^verbatim>\<open>data[k]\<close>: when the plane data is not
  unique it is copied to a new object at the address \<open>new\<close> with the buffer \<open>buf\<close>, the
  frame points to the copy, and the old object is released.
\<close>

definition make_unique ::
  "VSFrameRef \<Rightarrow> nat \<Rightarrow> 'w::len plane_store \<Rightarrow> nat \<Rightarrow> 'w word
     \<Rightarrow> frame_error + VSFrameRef \<times> 'w plane_store" where
  "make_unique f k st new buf =
     (case data_fr f ! k of
        None \<Rightarrow> Inl InvalidPointer
      | Some i \<Rightarrow>
          (case st i of
             None \<Rightarrow> Inl InvalidPointer
           | Some pd \<Rightarrow>
               if \<not> unique pd then
                 (case VSPlaneData_copy pd buf of
                    Inl e \<Rightarrow> Inl e
                  | Inr copy \<Rightarrow>
                      let old = data_fr f ! k;
                          f' = f\<lparr>data_fr := (data_fr f)[k := Some new]\<rparr>;
                          st' = st(new \<mapsto> copy)
                      in (case release st' old of
                            None \<Rightarrow> Inl InvalidPointer
                          | Some st'' \<Rightarrow> Inr (f', st'')))
               else Inr (f, st)))"

text \<open>\<^verbatim>\<open>getWritePtr\<close>: the returned pointer, the frame and the store.\<close>

definition getWritePtr ::
  "VSFrameRef \<Rightarrow> int \<Rightarrow> 'w::len plane_store \<Rightarrow> 'w word \<Rightarrow> nat \<Rightarrow> 'w word
     \<Rightarrow> frame_error + 'w word \<times> VSFrameRef \<times> 'w plane_store" where
  "getWritePtr f plane st guardSpace new buf =
     (if plane < 0 \<or> plane \<ge> numPlanes f then
        Inl (FatalError ''Requested write pointer for nonexistent plane'')
      else if contentType f = mtVideo then
        (case make_unique f (nat plane) st new buf of
           Inl e \<Rightarrow> Inl e
         | Inr (f', st') \<Rightarrow>
             (case data_of st' (data_fr f' ! nat plane) of
                Inl e \<Rightarrow> Inl e
              | Inr d \<Rightarrow> Inr (d + guardSpace, f', st')))
      else
        (case make_unique f 0 st new buf of
           Inl e \<Rightarrow> Inl e
         | Inr (f', st') \<Rightarrow>
             (case data_of st' (data_fr f' ! 0) of
                Inl e \<Rightarrow> Inl e
              | Inr d \<Rightarrow>
                  Inr (d + guardSpace + word_of_int (plane * (stride_fr f ! 0)), f', st'))))"

text \<open>
  A video frame as the constructors leave it: one or three planes, each plane's data a
  live object with at least one reference, and null pointers behind a single plane.
\<close>

definition video_frame_ok :: "VSFrameRef \<Rightarrow> 'w::len plane_store \<Rightarrow> bool" where
  "video_frame_ok f st \<longleftrightarrow>
     contentType f = mtVideo \<and> length (data_fr f) = 3 \<and>
     (numPlanes f = 1 \<or> numPlanes f = 3) \<and>
     (\<forall>k < nat (numPlanes f).
        \<exists>i pd. data_fr f ! k = Some i \<and> st i = Some pd \<and> 1 \<le> refcount_pd pd) \<and>
     (numPlanes f = 1 \<longrightarrow> data_fr f ! 1 = None \<and> data_fr f ! 2 = None)"

text \<open>The plane data that a frame's plane points to is unique.\<close>

definition plane_unique :: "VSFrameRef \<Rightarrow> nat \<Rightarrow> 'w::len plane_store \<Rightarrow> bool" where
  "plane_unique f k st \<longleftrightarrow>
     (case data_fr f ! k of
        None \<Rightarrow> False
      | Some i \<Rightarrow> (case st i of None \<Rightarrow> False | Some pd \<Rightarrow> unique pd))"

text \<open>A store of three plane data objects and a frame of three planes, for instantiating the theorems.\<close>

definition example_store :: "64 plane_store" where
  "example_store =
     [0 \<mapsto> \<lparr>refcount_pd = 1, data_pd = 4096, size_pd = 2, bytes_pd = [16, 17]\<rparr>,
      1 \<mapsto> \<lparr>refcount_pd = 1, data_pd = 8192, size_pd = 1, bytes_pd = [128]\<rparr>,
      2 \<mapsto> \<lparr>refcount_pd = 2, data_pd = 12288, size_pd = 1, bytes_pd = [129]\<rparr>]"

definition example_frame :: VSFrameRef where
  "example_frame =
     \<lparr>contentType = mtVideo, data_fr = [Some 0, Some 1, Some 2], numPlanes = 3,
      width_fr = 64, height_fr = 64, stride_fr = [64, 32, 32]\<rparr>"

section \<open>Theorems\<close>

subsection \<open>Audio formats\<close>

lemma bytesPerSample_loop_16_32:
  assumes "16 \<le> bits" "bits \<le> 32"
  shows "bytesPerSample_loop bits 1 = Some (if bits \<le> 16 then 2 else 4)"
proof -
  have s4: "bytesPerSample_loop bits 4 = Some 4"
    using assms by (subst bytesPerSample_loop.simps) simp
  have s2: "bytesPerSample_loop bits 2 = Some (if bits \<le> 16 then 2 else 4)"
    using assms s4 by (subst bytesPerSample_loop.simps) simp
  show ?thesis
    using assms s2 by (subst bytesPerSample_loop.simps) simp
qed

lemma bitset_count_card: "bitset_count w = card {n. bit w n}"
proof -
  have eq: "{n. bit w n} = set (filter (bit w) [0..<64])"
    by (auto dest: bit_imp_le_length)
  have "distinct (filter (bit w) [0..<64])"
    by simp
  then have "card (set (filter (bit w) [0..<64])) = length (filter (bit w) [0..<64])"
    by (rule distinct_card)
  then show ?thesis
    unfolding bitset_count_def eq by simp
qed


text \<open>
  C10. \<^verbatim>\<open>queryAudioFormat\<close> always returns. It returns true exactly when the sample type
  is integer or float, the bit depth lies in 16..32, a float type has 32 bits, and the
  channel layout is not zero. On success the format's channel count is the number of set
  bits of the layout and its bytes per sample is the smallest power of two \<open>P\<close> with
  \<open>8 * P \<ge> bitsPerSample\<close>; on failure the out-parameter is left as it was.
\<close>

theorem queryAudioFormat_spec:
  "\<exists>r f'. queryAudioFormat stInteger stFloat f sampleTy bits layout = Some (r, f') \<and>
     (r \<longleftrightarrow>
        (sampleTy = stInteger \<or> sampleTy = stFloat) \<and> 16 \<le> bits \<and> bits \<le> 32 \<and>
        (sampleTy = stFloat \<longrightarrow> bits = 32) \<and> layout \<noteq> 0) \<and>
     (r \<longrightarrow>
        numChannels f' = int (card {n. bit layout n}) \<and>
        (\<exists>k. bytesPerSample f' = 2 ^ k) \<and>
        bits \<le> 8 * bytesPerSample f' \<and>
        (\<forall>k. bits \<le> 8 * 2 ^ k \<longrightarrow> bytesPerSample f' \<le> 2 ^ k) \<and>
        sampleType f' = sampleTy \<and> bitsPerSample f' = bits \<and> channelLayout f' = layout) \<and>
     (\<not> r \<longrightarrow> f' = f)"
proof (cases "isValidAudioFormat stInteger stFloat sampleTy bits layout")
  case False
  then show ?thesis
    by (auto simp: queryAudioFormat_def isValidAudioFormat_def split: if_splits)
next
  case True
  then have rng: "16 \<le> bits" "bits \<le> 32"
    and cond: "(sampleTy = stInteger \<or> sampleTy = stFloat) \<and> (sampleTy = stFloat \<longrightarrow> bits = 32) \<and> layout \<noteq> 0"
    by (auto simp: isValidAudioFormat_def split: if_splits)
  let ?P = "if bits \<le> 16 then 2 else 4 :: int"
  have loop: "bytesPerSample_loop bits 1 = Some ?P"
    using rng by (rule bytesPerSample_loop_16_32)
  have pow: "\<exists>k. ?P = 2 ^ k"
  proof (cases "bits \<le> 16")
    case True
    have "(2::int) = 2 ^ 1" by simp
    with True show ?thesis by (metis (full_types))
  next
    case False
    have "(4::int) = 2 ^ 2" by simp
    with False show ?thesis by (metis (full_types))
  qed
  have least: "?P \<le> 2 ^ k" if "bits \<le> 8 * 2 ^ k" for k
  proof (cases k)
    case 0
    with that rng show ?thesis by simp
  next
    case (Suc j)
    show ?thesis
    proof (cases j)
      case 0
      with Suc that rng show ?thesis by simp
    next
      case (Suc i)
      have "(1::int) \<le> 2 ^ i" by simp
      then have "(4::int) \<le> 2 ^ k" using \<open>k = Suc j\<close> Suc by simp
      then show ?thesis by simp
    qed
  qed
  have big: "bits \<le> 8 * ?P"
    using rng by simp
  show ?thesis
    using True loop pow least big cond rng
    by (auto simp add: queryAudioFormat_def VSAudioFormat_zero_def bitset_count_card)
qed

theorem queryAudioFormat_spec_witness:
  "\<exists>f'. queryAudioFormat 0 1 VSAudioFormat_zero 0 24 3 = Some (True, f') \<and>
     numChannels f' = int (card {n. bit (3 :: 64 word) n}) \<and>
     (\<exists>k. bytesPerSample f' = 2 ^ k) \<and> 24 \<le> 8 * bytesPerSample f'"
  using queryAudioFormat_spec [of 0 1 VSAudioFormat_zero 0 24 3] by auto

subsection \<open>The memory limit\<close>

lemma setMaxMemoryUse_limit:
  "getLimit (snd (setMaxMemoryUse (m :: 'w::len word MemoryUse) b)) =
     (if setMaxMemoryUse_accepts TYPE('w) b then ucast b else getLimit m)"
  by (simp add: setMaxMemoryUse_def getLimit_def setMaxMemoryUse_accepts_def Let_def)

lemma setLimit_calls_snoc:
  "setLimit_calls m (bs @ [b]) = snd (setMaxMemoryUse (setLimit_calls m bs) b)"
  by (simp add: setLimit_calls_def)

lemma accepted_value:
  assumes "setMaxMemoryUse_accepts TYPE('w::len) b"
  shows "uint (ucast b :: 'w word) = sint b"
proof -
  have pos: "0 < sint b"
    using assms by (simp add: setMaxMemoryUse_accepts_def word_sless_alt)
  have "sint b < 2 ^ (LENGTH(64) - 1)"
    by (rule sint_lt)
  then have "sint b < 2 ^ LENGTH(64)"
    by simp
  with pos have "take_bit LENGTH(64) (sint b) = sint b"
    by (simp add: take_bit_int_eq_self)
  then have s: "sint b = uint b"
    using uint_sint [of b] by simp
  have "uint (ucast b :: 'w word) = uint b"
    using assms
    by (metis (mono_tags, lifting) setMaxMemoryUse_accepts_def of_int_uint
        order_le_less_trans take_bit_int_eq_self uint_lt2p uint_word_of_int_eq
        unsigned_greater_eq)
  with s show ?thesis
    by simp
qed

lemma setLimit_calls_limit:
  "getLimit (setLimit_calls (m :: 'w::len word MemoryUse) bs) =
     (case filter (setMaxMemoryUse_accepts TYPE('w)) bs of
        [] \<Rightarrow> getLimit m
      | x # xs \<Rightarrow> ucast (last (x # xs)))"
proof (induction bs rule: rev_induct)
  case Nil
  show ?case
    by (simp add: setLimit_calls_def)
next
  case (snoc b bs)
  show ?case
    using snoc.IH
    by (simp add: setLimit_calls_snoc setMaxMemoryUse_limit split: list.splits)
qed

text \<open>
  C7, as the claim states it, fails. On a 64-bit pool the calls \<open>setLimit(8192)\<close>,
  \<open>setLimit(0)\<close> leave the limit at 8192, which is not the last value passed; on a 32-bit
  pool \<open>setLimit(2^32)\<close> leaves the default of 1 GiB in place, which is not the value
  clamped to \<^verbatim>\<open>SIZE_MAX\<close>.
\<close>

theorem setLimit_not_last_value_counterexample:
  "getLimit (setLimit_calls (MemoryUse_ctor False 0 :: 64 word MemoryUse) [8192, 0]) = 8192 \<and>
   getLimit (setLimit_calls (MemoryUse_ctor False 0 :: 64 word MemoryUse) [8192, 0])
     \<noteq> clamped_to_SIZE_MAX (last [8192, 0]) \<and>
   getLimit (setLimit_calls (MemoryUse_ctor False 0 :: 32 word MemoryUse) [4294967296]) = 1073741824 \<and>
   getLimit (setLimit_calls (MemoryUse_ctor False 0 :: 32 word MemoryUse) [4294967296])
     \<noteq> clamped_to_SIZE_MAX (last [4294967296])"
  by (simp add: setLimit_calls_def MemoryUse_ctor_def setMaxMemoryUse_def getLimit_def
      SIZE_MAX_def sizeof_voidp_def largePageSupported_def word_sless_alt
      unsigned_minus_1_eq_mask mask_eq_exp_minus_1 clamped_to_SIZE_MAX_def)

text \<open>
  C7, amended. After any sequence of \<open>setLimit\<close> calls, \<open>limit()\<close> is the last value passed
  that was positive and at most \<^verbatim>\<open>SIZE_MAX\<close>, unchanged in value; when no such value was
  passed, the limit is what it was before the calls. Other values are ignored.
\<close>

theorem setLimit_last_accepted:
  "(case filter (setMaxMemoryUse_accepts TYPE('w)) bs of
      [] \<Rightarrow> getLimit (setLimit_calls m bs) = getLimit (m :: 'w::len word MemoryUse)
    | x # xs \<Rightarrow> uint (getLimit (setLimit_calls m bs)) = sint (last (x # xs)))"
proof (cases "filter (setMaxMemoryUse_accepts TYPE('w)) bs")
  case Nil
  then show ?thesis
    by (simp add: setLimit_calls_limit)
next
  case (Cons x xs)
  then have "last (x # xs) \<in> set (filter (setMaxMemoryUse_accepts TYPE('w)) bs)"
    by (metis last_in_set list.distinct(1))
  then have "setMaxMemoryUse_accepts TYPE('w) (last (x # xs))"
    by simp
  then have "uint (ucast (last (x # xs)) :: 'w word) = sint (last (x # xs))"
    by (rule accepted_value)
  with Cons show ?thesis
    by (simp add: setLimit_calls_limit)
qed

theorem setLimit_last_accepted_witness:
  "uint (getLimit (setLimit_calls (MemoryUse_ctor False 0 :: 64 word MemoryUse) [8192, 0, - 5])) = 8192"
  using setLimit_last_accepted
    [where bs = "[8192, 0, - 5]" and m = "MemoryUse_ctor False 0 :: 64 word MemoryUse"]
  by (simp add: setMaxMemoryUse_accepts_def word_sless_alt SIZE_MAX_def
      unsigned_minus_1_eq_mask mask_eq_exp_minus_1)

subsection \<open>The memory pool\<close>

lemma mset_erase:
  assumes "i < length xs"
  shows "add_mset (xs ! i) (mset (erase i xs)) = mset xs"
proof -
  have "mset (take i xs @ xs ! i # drop (Suc i) xs) = mset xs"
    by (rule arg_cong [OF id_take_nth_drop [OF assms, symmetric]])
  then show ?thesis
    by (simp add: erase_def)
qed

lemma map_erase: "map f (erase i xs) = erase i (map f xs)"
  by (simp add: erase_def take_map drop_map)

lemma sorted_erase_keys:
  fixes ys :: "'a::linorder list"
  assumes "sorted ys"
  shows "sorted (erase i ys)"
proof -
  have "sorted (take i ys @ drop i ys)"
    using assms by simp
  then have cross: "\<forall>x\<in>set (take i ys). \<forall>y\<in>set (drop i ys). x \<le> y"
    unfolding sorted_append by blast
  have sub: "set (drop (Suc i) ys) \<subseteq> set (drop i ys)"
    by (simp add: set_drop_subset_set_drop)
  have "sorted (take i ys)" "sorted (drop (Suc i) ys)"
    using assms by (simp_all add: sorted_wrt_take sorted_wrt_drop)
  with cross sub show ?thesis
    unfolding erase_def sorted_append by blast
qed

lemma sorted_erase:
  "sorted (map fst xs) \<Longrightarrow> sorted (map fst (erase i xs))"
  by (simp add: map_erase sorted_erase_keys)

lemma sorted_emplace:
  assumes "sorted (map fst xs)"
  shows "sorted (map fst (emplace e xs))"
proof -
  define tw where "tw = takeWhile (\<lambda>x. fst x \<le> fst e) xs"
  define dw where "dw = dropWhile (\<lambda>x. fst x \<le> fst e) xs"
  have xs: "xs = tw @ dw"
    by (simp add: tw_def dw_def)
  have before: "\<forall>x\<in>set tw. fst x \<le> fst e"
    unfolding tw_def by (auto dest: set_takeWhileD)
  have sorted_parts: "sorted (map fst tw)" "sorted (map fst dw)"
    using assms unfolding xs by (simp_all add: sorted_append)
  have after: "\<forall>y\<in>set dw. fst e \<le> fst y"
  proof (cases dw)
    case Nil
    then show ?thesis by simp
  next
    case (Cons d ds)
    then have "dropWhile (\<lambda>x. fst x \<le> fst e) xs \<noteq> []"
      by (simp add: dw_def)
    then have "\<not> fst (hd dw) \<le> fst e"
      unfolding dw_def by (rule hd_dropWhile)
    then have "fst e \<le> fst d"
      using Cons by simp
    moreover have "\<forall>y\<in>set ds. fst d \<le> fst y"
      using sorted_parts(2) Cons by simp
    ultimately show ?thesis
      using Cons by auto
  qed
  have cross: "\<forall>x\<in>set tw. \<forall>y\<in>set dw. fst x \<le> fst y"
    using before after by (blast intro: order_trans)
  have "sorted (map fst (tw @ e # dw))"
    using sorted_parts before after cross by (auto simp: sorted_append)
  then show ?thesis
    by (simp add: emplace_def tw_def dw_def)
qed

lemma mset_emplace: "mset (emplace e xs) = add_mset e (mset xs)"
proof -
  have "mset (takeWhile (\<lambda>x. fst x \<le> fst e) xs @ dropWhile (\<lambda>x. fst x \<le> fst e) xs) = mset xs"
    by simp
  then show ?thesis
    unfolding emplace_def by (simp del: takeWhile_dropWhile_id)
qed

lemma remove_block_erase:
  "remove_block i m =
     m\<lparr>buffers := erase i (buffers m),
       unusedBufferSize := unusedBufferSize m - fst (buffers m ! i)\<rparr>"
  by (simp add: remove_block_def erase_def)

lemma pushed_emplace:
  "pushed m sz blk =
     m\<lparr>buffers := emplace (sz, blk) (buffers m), unusedBufferSize := unusedBufferSize m + sz\<rparr>"
  by (simp add: pushed_def emplace_def)

lemma after_evictions_fields:
  "used (after_evictions draws n p) = used p"
  "maxMemoryUse (after_evictions draws n p) = maxMemoryUse p"
  "largePageEnabled (after_evictions draws n p) = largePageEnabled p"
  "freeOnZero (after_evictions draws n p) = freeOnZero p"
  "memoryWarningIssued (after_evictions draws n p) = memoryWarningIssued p"
  by (induction n) (simp_all add: remove_block_erase)

lemma over_limit_warning [simp]:
  "over_limit (m\<lparr>memoryWarningIssued := w\<rparr>) = over_limit m"
  by (simp add: over_limit_def)

lemma length_erase: "i < length xs \<Longrightarrow> Suc (length (erase i xs)) = length xs"
  by (auto simp: erase_def min_def)

lemma after_evictions_shorter:
  assumes "\<forall>k<n. buffers (after_evictions draws k p) \<noteq> []"
  shows "length (buffers (after_evictions draws n p)) + n = length (buffers p)"
  using assms
proof (induction n)
  case 0
  show ?case by simp
next
  case (Suc n)
  let ?s = "after_evictions draws n p"
  let ?i = "draws n mod length (buffers ?s)"
  have ne: "buffers ?s \<noteq> []"
    using Suc.prems by simp
  then have "?i < length (buffers ?s)"
    by simp
  then have "Suc (length (erase ?i (buffers ?s))) = length (buffers ?s)"
    by (rule length_erase)
  moreover have "buffers (after_evictions draws (Suc n) p) = erase ?i (buffers ?s)"
    by (simp add: remove_block_erase)
  moreover have "length (buffers ?s) + n = length (buffers p)"
    using Suc by simp
  ultimately show ?case
    by simp
qed

lemma eviction_stops:
  "\<exists>n. (\<forall>k<n. over_limit (after_evictions draws k p)) \<and> \<not> over_limit (after_evictions draws n p)"
proof -
  have "\<exists>n. \<not> over_limit (after_evictions draws n p)"
  proof (rule ccontr)
    assume "\<not> (\<exists>n. \<not> over_limit (after_evictions draws n p))"
    then have "\<forall>k < Suc (length (buffers p)). buffers (after_evictions draws k p) \<noteq> []"
      by (simp add: over_limit_def)
    then have "length (buffers (after_evictions draws (Suc (length (buffers p))) p))
        + Suc (length (buffers p)) = length (buffers p)"
      by (rule after_evictions_shorter)
    then show False
      by simp
  qed
  then obtain n where "\<not> over_limit (after_evictions draws n p)"
    and "\<forall>k<n. \<not> \<not> over_limit (after_evictions draws k p)"
    unfolding exists_least_iff [of "\<lambda>n. \<not> over_limit (after_evictions draws n p)"] by blast
  then show ?thesis
    by auto
qed

lemma mset_after_evictions:
  assumes "\<forall>k<n. buffers (after_evictions draws k p) \<noteq> []"
  shows "mset (buffers (after_evictions draws n p)) + mset (map (\<lambda>k. evicted draws k p) [0..<n])
           = mset (buffers p)"
  using assms
proof (induction n)
  case 0
  show ?case by simp
next
  case (Suc n)
  let ?s = "after_evictions draws n p"
  let ?i = "draws n mod length (buffers ?s)"
  let ?ev = "mset (map (\<lambda>k. evicted draws k p) [0..<n])"
  have "buffers ?s \<noteq> []"
    using Suc.prems by simp
  then have "?i < length (buffers ?s)"
    by simp
  then have one: "add_mset (buffers ?s ! ?i) (mset (erase ?i (buffers ?s))) = mset (buffers ?s)"
    by (rule mset_erase)
  have ih: "mset (buffers ?s) + ?ev = mset (buffers p)"
    using Suc by simp
  have "mset (buffers (after_evictions draws (Suc n) p))
          + mset (map (\<lambda>k. evicted draws k p) [0..<Suc n])
        = add_mset (buffers ?s ! ?i) (mset (erase ?i (buffers ?s))) + ?ev"
    by (simp add: remove_block_erase evicted_def)
  also have "\<dots> = mset (buffers ?s) + ?ev"
    unfolding one by (rule refl)
  also have "\<dots> = mset (buffers p)"
    by (rule ih)
  finally show ?case .
qed

lemma unusedBufferSize_after_evictions:
  "unusedBufferSize (after_evictions draws n p) =
     unusedBufferSize p - sum_list (map (\<lambda>k. fst (evicted draws k p)) [0..<n])"
  by (induction n) (simp_all add: remove_block_erase evicted_def)

lemma sorted_after_evictions:
  "sorted (map fst (buffers p)) \<Longrightarrow> sorted (map fst (buffers (after_evictions draws n p)))"
  by (induction n) (simp_all add: remove_block_erase sorted_erase)

declare evict.simps [simp del]

lemma evict_stop:
  "\<not> (memoryUsed + unusedBufferSize m > maxMemoryUse m \<and> buffers m \<noteq> []) \<Longrightarrow>
   evict assertions mem memoryUsed draws k m = Inr (m, [])"
  by (subst evict.simps) auto

lemma evict_body_remove_block:
  "evict_body assertions draws k (s\<lparr>memoryWarningIssued := w\<rparr>) =
     (if assertions \<and> unusedBufferSize s < fst (buffers s ! (draws k mod length (buffers s)))
      then Inl (AssertionFailed ''unusedBufferSize >= iter->first'')
      else Inr (snd (buffers s ! (draws k mod length (buffers s))),
                (remove_block (draws k mod length (buffers s)) s)\<lparr>memoryWarningIssued := True\<rparr>))"
  by (cases w) (simp_all add: evict_body_def remove_block_erase Let_def not_le)

text \<open>
  The loop entered at the \<open>k\<close>-th draw with the pool that \<open>k\<close> evictions have left, when the
  pool stays over its limit until \<open>n\<close> evictions are done.
\<close>

lemma evict_run:
  assumes "\<forall>j. k \<le> j \<and> j < n \<longrightarrow> over_limit (after_evictions draws j p)"
    and "\<not> over_limit (after_evictions draws n p)"
    and "k \<le> n"
  shows "evict assertions mem (used p) draws k ((after_evictions draws k p)\<lparr>memoryWarningIssued := w\<rparr>) =
     (if assertions \<and>
         (\<exists>j. k \<le> j \<and> j < n \<and> unusedBufferSize (after_evictions draws j p) < fst (evicted draws j p))
      then Inl (AssertionFailed ''unusedBufferSize >= iter->first'')
      else Inr ((after_evictions draws n p)\<lparr>memoryWarningIssued := w \<or> k < n\<rparr>,
                map (\<lambda>j. freeMemory mem (snd (evicted draws j p))) [k..<n]))"
  using assms
proof (induction "n - k" arbitrary: k w)
  case 0
  then have k: "k = n"
    by simp
  let ?s = "after_evictions draws n p"
  have "\<not> (used p + unusedBufferSize (?s\<lparr>memoryWarningIssued := w\<rparr>)
          > maxMemoryUse (?s\<lparr>memoryWarningIssued := w\<rparr>) \<and> buffers (?s\<lparr>memoryWarningIssued := w\<rparr>) \<noteq> [])"
    using "0.prems"(2) by (simp add: over_limit_def after_evictions_fields)
  then have "evict assertions mem (used p) draws n (?s\<lparr>memoryWarningIssued := w\<rparr>)
      = Inr (?s\<lparr>memoryWarningIssued := w\<rparr>, [])"
    by (rule evict_stop)
  then show ?case
    unfolding k by simp
next
  case (Suc d)
  then have kn: "k < n"
    by simp
  let ?s = "after_evictions draws k p"
  let ?i = "draws k mod length (buffers ?s)"
  let ?fail = "\<lambda>j. unusedBufferSize (after_evictions draws j p) < fst (evicted draws j p)"
  let ?f = "\<lambda>j. freeMemory mem (snd (evicted draws j p))"
  have over: "over_limit ?s"
    using Suc.prems(1) kn by simp
  then have guard: "used p + unusedBufferSize (?s\<lparr>memoryWarningIssued := w\<rparr>)
          > maxMemoryUse (?s\<lparr>memoryWarningIssued := w\<rparr>) \<and> buffers (?s\<lparr>memoryWarningIssued := w\<rparr>) \<noteq> []"
    by (simp add: over_limit_def after_evictions_fields)
  have unfold: "evict assertions mem (used p) draws k (?s\<lparr>memoryWarningIssued := w\<rparr>) =
      (case evict_body assertions draws k (?s\<lparr>memoryWarningIssued := w\<rparr>) of
         Inl e \<Rightarrow> Inl e
       | Inr (ptr, m3) \<Rightarrow>
           (case evict assertions mem (used p) draws (Suc k) m3 of
              Inl e \<Rightarrow> Inl e
            | Inr (m', freed) \<Rightarrow> Inr (m', freeMemory mem ptr # freed)))"
    using guard by (subst evict.simps) simp
  have split: "(\<exists>j. k \<le> j \<and> j < n \<and> ?fail j) \<longleftrightarrow> ?fail k \<or> (\<exists>j. Suc k \<le> j \<and> j < n \<and> ?fail j)"
    using kn by (metis Suc_leI le_eq_less_or_eq Suc_le_lessD order_refl)
  have ih: "evict assertions mem (used p) draws (Suc k)
        ((after_evictions draws (Suc k) p)\<lparr>memoryWarningIssued := True\<rparr>) =
     (if assertions \<and> (\<exists>j. Suc k \<le> j \<and> j < n \<and> ?fail j)
      then Inl (AssertionFailed ''unusedBufferSize >= iter->first'')
      else Inr ((after_evictions draws n p)\<lparr>memoryWarningIssued := True \<or> Suc k < n\<rparr>,
                map ?f [Suc k..<n]))"
  proof (rule Suc.hyps(1))
    show "d = n - Suc k"
      using Suc.hyps(2) by simp
    show "\<forall>j. Suc k \<le> j \<and> j < n \<longrightarrow> over_limit (after_evictions draws j p)"
      using Suc.prems(1) by simp
    show "\<not> over_limit (after_evictions draws n p)"
      by (rule Suc.prems(2))
    show "Suc k \<le> n"
      using kn by simp
  qed
  have upt: "[k..<n] = k # [Suc k..<n]"
    using kn by (rule upt_conv_Cons)
  show ?case
  proof (cases "assertions \<and> ?fail k")
    case True
    then have "evict_body assertions draws k (?s\<lparr>memoryWarningIssued := w\<rparr>) =
        Inl (AssertionFailed ''unusedBufferSize >= iter->first'')"
      unfolding evict_body_remove_block by (simp add: evicted_def)
    then have "evict assertions mem (used p) draws k (?s\<lparr>memoryWarningIssued := w\<rparr>) =
        Inl (AssertionFailed ''unusedBufferSize >= iter->first'')"
      unfolding unfold by simp
    moreover have "assertions \<and> (\<exists>j. k \<le> j \<and> j < n \<and> ?fail j)"
      using True split by blast
    ultimately show ?thesis
      by simp
  next
    case False
    then have body: "evict_body assertions draws k (?s\<lparr>memoryWarningIssued := w\<rparr>) =
        Inr (snd (evicted draws k p),
             (after_evictions draws (Suc k) p)\<lparr>memoryWarningIssued := True\<rparr>)"
      unfolding evict_body_remove_block by (auto simp: evicted_def)
    have step: "evict assertions mem (used p) draws k (?s\<lparr>memoryWarningIssued := w\<rparr>) =
        (case evict assertions mem (used p) draws (Suc k)
                ((after_evictions draws (Suc k) p)\<lparr>memoryWarningIssued := True\<rparr>) of
           Inl e \<Rightarrow> Inl e
         | Inr (m', freed) \<Rightarrow> Inr (m', ?f k # freed))"
      unfolding unfold body by simp
    show ?thesis
    proof (cases "assertions \<and> (\<exists>j. Suc k \<le> j \<and> j < n \<and> ?fail j)")
      case True
      then have "evict assertions mem (used p) draws k (?s\<lparr>memoryWarningIssued := w\<rparr>) =
          Inl (AssertionFailed ''unusedBufferSize >= iter->first'')"
        unfolding step ih by simp
      moreover have "assertions \<and> (\<exists>j. k \<le> j \<and> j < n \<and> ?fail j)"
        using True split by blast
      ultimately show ?thesis
        by simp
    next
      case later: False
      then have "evict assertions mem (used p) draws k (?s\<lparr>memoryWarningIssued := w\<rparr>) =
          Inr ((after_evictions draws n p)\<lparr>memoryWarningIssued := True\<rparr>, ?f k # map ?f [Suc k..<n])"
        unfolding step ih by auto
      moreover have "\<not> (assertions \<and> (\<exists>j. k \<le> j \<and> j < n \<and> ?fail j))"
        using False later split by blast
      ultimately show ?thesis
        using kn upt by simp
    qed
  qed
qed

text \<open>
  \<^verbatim>\<open>freeBuffer\<close> on a pointer that passes its two checks, when \<open>n\<close> is the number of
  evictions after which the pool is no longer over its limit.
\<close>

lemma freeBuffer_run:
  assumes "assertions \<longrightarrow> buf \<noteq> 0" and "size_hdr (mem (buf - alignment)) \<noteq> 0"
    and "p = pushed m (size_hdr (mem (buf - alignment))) (buf - alignment)"
    and "\<forall>k<n. over_limit (after_evictions draws k p)"
    and "\<not> over_limit (after_evictions draws n p)"
  shows "freeBuffer assertions m alignment draws mem buf =
     (if assertions \<and>
         (\<exists>k<n. unusedBufferSize (after_evictions draws k p) < fst (evicted draws k p))
      then Inl (AssertionFailed ''unusedBufferSize >= iter->first'')
      else Inr ((after_evictions draws n p)\<lparr>memoryWarningIssued := memoryWarningIssued m \<or> 0 < n\<rparr>,
                map (\<lambda>k. freeMemory mem (snd (evicted draws k p))) [0..<n]))"
proof -
  have "freeBuffer assertions m alignment draws mem buf = evict assertions mem (used p) draws 0 p"
    using assms(1,2) unfolding assms(3) by (auto simp: freeBuffer_def pushed_emplace Let_def)
  also have "p = (after_evictions draws 0 p)\<lparr>memoryWarningIssued := memoryWarningIssued m\<rparr>"
    unfolding assms(3) by (simp add: pushed_emplace)
  finally have "freeBuffer assertions m alignment draws mem buf =
      evict assertions mem (used p) draws 0
        ((after_evictions draws 0 p)\<lparr>memoryWarningIssued := memoryWarningIssued m\<rparr>)"
    by simp
  also have "\<dots> =
     (if assertions \<and>
         (\<exists>j. 0 \<le> j \<and> j < n \<and> unusedBufferSize (after_evictions draws j p) < fst (evicted draws j p))
      then Inl (AssertionFailed ''unusedBufferSize >= iter->first'')
      else Inr ((after_evictions draws n p)\<lparr>memoryWarningIssued := memoryWarningIssued m \<or> 0 < n\<rparr>,
                map (\<lambda>j. freeMemory mem (snd (evicted draws j p))) [0..<n]))"
    using assms(4,5) by (intro evict_run) simp_all
  finally show ?thesis
    by simp
qed

lemma freeBuffer_Inr:
  assumes "freeBuffer assertions m alignment draws mem buf = Inr (m', freed)"
  shows "\<exists>n. m' = (after_evictions draws n
                     (pushed m (size_hdr (mem (buf - alignment))) (buf - alignment)))
                   \<lparr>memoryWarningIssued := memoryWarningIssued m \<or> 0 < n\<rparr>"
proof -
  define p where "p = pushed m (size_hdr (mem (buf - alignment))) (buf - alignment)"
  have checks: "assertions \<longrightarrow> buf \<noteq> 0" "size_hdr (mem (buf - alignment)) \<noteq> 0"
    using assms by (auto simp: freeBuffer_def Let_def split: if_splits)
  obtain n where n: "\<forall>k<n. over_limit (after_evictions draws k p)"
    "\<not> over_limit (after_evictions draws n p)"
    using eviction_stops [of draws p] by blast
  have "m' = (after_evictions draws n p)\<lparr>memoryWarningIssued := memoryWarningIssued m \<or> 0 < n\<rparr>"
    using assms
    unfolding freeBuffer_run [where p = p and n = n and draws = draws and m = m and mem = mem
        and buf = buf and alignment = alignment and assertions = assertions, OF checks p_def n]
    by (simp split: if_splits)
  then show ?thesis
    unfolding p_def by blast
qed

lemma MemoryUse_ctor_largePageEnabled: "\<not> largePageEnabled (MemoryUse_ctor os uninit)"
  by (simp add: MemoryUse_ctor_def setMaxMemoryUse_def Let_def)

lemma allocBuffer_largePageEnabled:
  assumes "allocBuffer m alignment granularity lp sp mem bytes = Inr (buf, m', mem')"
  shows "largePageEnabled m' = largePageEnabled m"
proof (cases "lower_bound bytes (buffers m) \<noteq> length (buffers m) \<and>
    isGoodFit bytes (fst (buffers m ! lower_bound bytes (buffers m)))")
  case True
  with assms show ?thesis
    by (auto simp: allocBuffer_def Let_def)
next
  case False
  with assms show ?thesis
    by (auto simp: allocBuffer_def Let_def split: sum.splits)
qed

lemma freeBuffer_largePageEnabled:
  assumes "freeBuffer assertions m alignment draws mem buf = Inr (m', freed)"
  shows "largePageEnabled m' = largePageEnabled m"
proof -
  from freeBuffer_Inr [OF assms] obtain n where
    "m' = (after_evictions draws n
             (pushed m (size_hdr (mem (buf - alignment))) (buf - alignment)))
           \<lparr>memoryWarningIssued := memoryWarningIssued m \<or> 0 < n\<rparr>"
    by blast
  then show ?thesis
    by (simp add: after_evictions_fields pushed_emplace)
qed

lemma pool_state_largePageEnabled:
  "pool_state alignment granularity m \<Longrightarrow> \<not> largePageEnabled m"
proof (induction rule: pool_state.induct)
  case (constructed os uninit)
  show ?case by (rule MemoryUse_ctor_largePageEnabled)
next
  case (after_allocBuffer m lp sp mem bytes buf m' mem')
  then show ?case
    by (simp add: allocBuffer_largePageEnabled)
next
  case (after_freeBuffer m assertions draws mem buf m' freed)
  then show ?case
    by (simp add: freeBuffer_largePageEnabled)
next
  case (after_setMaxMemoryUse m bytes)
  then show ?case by (simp add: setMaxMemoryUse_def Let_def)
next
  case (after_add m bytes)
  then show ?case by (simp add: add_def)
next
  case (after_subtract m bytes m')
  then show ?case by (auto simp: subtract_def Let_def split: if_splits)
next
  case (after_signalFree m m')
  then show ?case by (auto simp: signalFree_def Let_def split: if_splits)
qed

text \<open>
  C9. Every pool that exists has its large-page flag off. So \<^verbatim>\<open>allocateLargePage\<close> returns
  null for every request, and every block that \<^verbatim>\<open>allocateMemory\<close> returns is the standard
  allocation, with a header that records the requested size and \<open>large = false\<close>, which
  \<^verbatim>\<open>freeMemory\<close> gives to the standard aligned deallocator.
\<close>

theorem large_pages_disabled:
  assumes "pool_state alignment granularity m"
  shows "\<not> largePageEnabled m \<and>
         allocateLargePage m alignment granularity lp mem bytes = (0, mem) \<and>
         (\<forall>ptr mem'. allocateMemory m alignment granularity lp sp mem bytes = Inr (ptr, mem') \<longrightarrow>
            ptr = sp \<and> mem' ptr = \<lparr>size_hdr = bytes, large = False\<rparr> \<and>
            freeMemory mem' ptr = AlignedFree ptr)"
  using pool_state_largePageEnabled [OF assms]
  by (auto simp: allocateLargePage_def allocateMemory_def freeMemory_def split: if_splits)

theorem large_pages_disabled_witness:
  "pool_state (32 :: 64 word) 2097152 (MemoryUse_ctor True 0) \<and>
   allocateLargePage (MemoryUse_ctor True 0) (32 :: 64 word) 2097152 4096 example_memory 16777216 = (0, example_memory) \<and>
   allocateMemory (MemoryUse_ctor True 0) (32 :: 64 word) 2097152 4096 8192 (\<lambda>_. \<lparr>size_hdr = 0, large = True\<rparr>) 16777216
     = Inr (8192, (\<lambda>_. \<lparr>size_hdr = 0, large = True\<rparr>)(8192 := \<lparr>size_hdr = 16777216, large = False\<rparr>))"
  using large_pages_disabled
    [OF constructed [where os = True and uninit = 0 and alignment = 32 and granularity = 2097152],
     where lp = 4096 and mem = example_memory and bytes = 16777216]
  by (simp add: allocateLargePage_def allocateMemory_def constructed)

text \<open>
  C3. \<^verbatim>\<open>freeBuffer\<close>, for every sequence of random draws. A null pointer fails the first
  assertion, in a build with assertions; a block whose header has size 0 ends the call in
  the fatal error. Otherwise the block is pushed into the map of freed blocks and
  \<^verbatim>\<open>unusedBufferSize\<close> grows by its size. Then blocks are evicted one at a time, each at
  the position drawn in the map as it is then, for exactly as long as the pool is over its
  limit: there is a number \<open>n\<close> such that the pool is over its limit after each of the
  first \<open>0, \<dots>, n - 1\<close> evictions and is not after \<open>n\<close>, and
  \<^item> the call returns the pool after these \<open>n\<close> evictions (with the warning flag set once
    a block was evicted), having handed the \<open>n\<close> evicted blocks to \<^verbatim>\<open>freeMemory\<close> in that
    order; what is left in the map together with the evicted blocks is the map after the
    push, and \<^verbatim>\<open>unusedBufferSize\<close> has shrunk by their sizes; on return the map is empty or
    \<open>used + unusedBufferSize \<le> maxMemoryUse\<close>;
  \<^item> except that in a build with assertions the process is aborted when
    \<^verbatim>\<open>unusedBufferSize\<close> is smaller than the size of a block to evict.
  The draw is an arbitrary position of the map; that the positions are equally likely is
  the library's distribution and not stated here.
\<close>

theorem freeBuffer_evicts:
  "(assertions \<and> buf = 0 \<longrightarrow>
      freeBuffer assertions m alignment draws mem buf = Inl (AssertionFailed ''buf'')) \<and>
   (\<not> (assertions \<and> buf = 0) \<and> size_hdr (mem (buf - alignment)) = 0 \<longrightarrow>
      freeBuffer assertions m alignment draws mem buf =
        Inl (Fatal ''Memory corruption detected. Windows bug?'')) \<and>
   (\<not> (assertions \<and> buf = 0) \<and> size_hdr (mem (buf - alignment)) \<noteq> 0 \<longrightarrow>
    (\<exists>n p.
     p = pushed m (size_hdr (mem (buf - alignment))) (buf - alignment) \<and>
     mset (buffers p) =
       add_mset (size_hdr (mem (buf - alignment)), buf - alignment) (mset (buffers m)) \<and>
     unusedBufferSize p = unusedBufferSize m + size_hdr (mem (buf - alignment)) \<and>
     (\<forall>k<n. over_limit (after_evictions draws k p)) \<and>
     \<not> over_limit (after_evictions draws n p) \<and>
     mset (buffers (after_evictions draws n p)) + mset (map (\<lambda>k. evicted draws k p) [0..<n])
       = mset (buffers p) \<and>
     unusedBufferSize (after_evictions draws n p) =
       unusedBufferSize p - sum_list (map (\<lambda>k. fst (evicted draws k p)) [0..<n]) \<and>
     (if assertions \<and>
         (\<exists>k<n. unusedBufferSize (after_evictions draws k p) < fst (evicted draws k p))
      then freeBuffer assertions m alignment draws mem buf =
             Inl (AssertionFailed ''unusedBufferSize >= iter->first'')
      else \<exists>m'.
             freeBuffer assertions m alignment draws mem buf =
               Inr (m', map (\<lambda>k. if large (mem (snd (evicted draws k p)))
                              then FreeLargePage (snd (evicted draws k p))
                              else AlignedFree (snd (evicted draws k p))) [0..<n]) \<and>
             m' = (after_evictions draws n p)\<lparr>memoryWarningIssued := memoryWarningIssued m \<or> 0 < n\<rparr> \<and>
             (buffers m' = [] \<or> used m' + unusedBufferSize m' \<le> maxMemoryUse m'))))"
proof (intro conjI impI)
  assume "assertions \<and> buf = 0"
  then show "freeBuffer assertions m alignment draws mem buf = Inl (AssertionFailed ''buf'')"
    by (simp add: freeBuffer_def)
next
  assume "\<not> (assertions \<and> buf = 0) \<and> size_hdr (mem (buf - alignment)) = 0"
  then show "freeBuffer assertions m alignment draws mem buf =
      Inl (Fatal ''Memory corruption detected. Windows bug?'')"
    by (auto simp: freeBuffer_def Let_def)
next
  assume valid: "\<not> (assertions \<and> buf = 0) \<and> size_hdr (mem (buf - alignment)) \<noteq> 0"
  show "\<exists>n p.
     p = pushed m (size_hdr (mem (buf - alignment))) (buf - alignment) \<and>
     mset (buffers p) =
       add_mset (size_hdr (mem (buf - alignment)), buf - alignment) (mset (buffers m)) \<and>
     unusedBufferSize p = unusedBufferSize m + size_hdr (mem (buf - alignment)) \<and>
     (\<forall>k<n. over_limit (after_evictions draws k p)) \<and>
     \<not> over_limit (after_evictions draws n p) \<and>
     mset (buffers (after_evictions draws n p)) + mset (map (\<lambda>k. evicted draws k p) [0..<n])
       = mset (buffers p) \<and>
     unusedBufferSize (after_evictions draws n p) =
       unusedBufferSize p - sum_list (map (\<lambda>k. fst (evicted draws k p)) [0..<n]) \<and>
     (if assertions \<and>
         (\<exists>k<n. unusedBufferSize (after_evictions draws k p) < fst (evicted draws k p))
      then freeBuffer assertions m alignment draws mem buf =
             Inl (AssertionFailed ''unusedBufferSize >= iter->first'')
      else \<exists>m'.
             freeBuffer assertions m alignment draws mem buf =
               Inr (m', map (\<lambda>k. if large (mem (snd (evicted draws k p)))
                              then FreeLargePage (snd (evicted draws k p))
                              else AlignedFree (snd (evicted draws k p))) [0..<n]) \<and>
             m' = (after_evictions draws n p)\<lparr>memoryWarningIssued := memoryWarningIssued m \<or> 0 < n\<rparr> \<and>
             (buffers m' = [] \<or> used m' + unusedBufferSize m' \<le> maxMemoryUse m'))"
  proof -
  define h where "h = size_hdr (mem (buf - alignment))"
  define p where "p = pushed m h (buf - alignment)"
  obtain n where n: "\<forall>k<n. over_limit (after_evictions draws k p)"
    "\<not> over_limit (after_evictions draws n p)"
    using eviction_stops [of draws p] by blast
  have checks: "assertions \<longrightarrow> buf \<noteq> 0" "size_hdr (mem (buf - alignment)) \<noteq> 0"
    using valid by simp_all
  have run: "freeBuffer assertions m alignment draws mem buf =
     (if assertions \<and>
         (\<exists>k<n. unusedBufferSize (after_evictions draws k p) < fst (evicted draws k p))
      then Inl (AssertionFailed ''unusedBufferSize >= iter->first'')
      else Inr ((after_evictions draws n p)\<lparr>memoryWarningIssued := memoryWarningIssued m \<or> 0 < n\<rparr>,
                map (\<lambda>k. freeMemory mem (snd (evicted draws k p))) [0..<n]))"
    by (rule freeBuffer_run [where p = p and n = n and draws = draws and m = m and mem = mem
          and buf = buf and alignment = alignment and assertions = assertions,
          OF checks p_def [unfolded h_def] n])
  have fm: "(\<lambda>k. freeMemory mem (snd (evicted draws k p))) =
      (\<lambda>k. if large (mem (snd (evicted draws k p)))
           then FreeLargePage (snd (evicted draws k p))
           else AlignedFree (snd (evicted draws k p)))"
    by (simp add: freeMemory_def)
  note run = run [unfolded fm]
  have p1: "mset (buffers p) = add_mset (h, buf - alignment) (mset (buffers m))"
    by (simp add: p_def pushed_emplace mset_emplace)
  have p2: "unusedBufferSize p = unusedBufferSize m + h"
    by (simp add: p_def pushed_emplace)
  have "\<forall>k<n. buffers (after_evictions draws k p) \<noteq> []"
    using n(1) by (simp add: over_limit_def)
  then have e1: "mset (buffers (after_evictions draws n p)) + mset (map (\<lambda>k. evicted draws k p) [0..<n])
       = mset (buffers p)"
    by (rule mset_after_evictions)
  have e2: "unusedBufferSize (after_evictions draws n p) =
       unusedBufferSize p - sum_list (map (\<lambda>k. fst (evicted draws k p)) [0..<n])"
    by (rule unusedBufferSize_after_evictions)
  define m' where
    "m' = (after_evictions draws n p)\<lparr>memoryWarningIssued := memoryWarningIssued m \<or> 0 < n\<rparr>"
  have exit: "buffers m' = [] \<or> used m' + unusedBufferSize m' \<le> maxMemoryUse m'"
    using n(2) by (auto simp: m'_def over_limit_def not_less)
  have res: "if assertions \<and>
         (\<exists>k<n. unusedBufferSize (after_evictions draws k p) < fst (evicted draws k p))
      then freeBuffer assertions m alignment draws mem buf =
             Inl (AssertionFailed ''unusedBufferSize >= iter->first'')
      else \<exists>m'.
             freeBuffer assertions m alignment draws mem buf =
               Inr (m', map (\<lambda>k. if large (mem (snd (evicted draws k p)))
                              then FreeLargePage (snd (evicted draws k p))
                              else AlignedFree (snd (evicted draws k p))) [0..<n]) \<and>
             m' = (after_evictions draws n p)\<lparr>memoryWarningIssued := memoryWarningIssued m \<or> 0 < n\<rparr> \<and>
             (buffers m' = [] \<or> used m' + unusedBufferSize m' \<le> maxMemoryUse m')"
  proof (cases "assertions \<and>
         (\<exists>k<n. unusedBufferSize (after_evictions draws k p) < fst (evicted draws k p))")
    case True
    then have "freeBuffer assertions m alignment draws mem buf =
        Inl (AssertionFailed ''unusedBufferSize >= iter->first'')"
      using run by simp
    then show ?thesis
      by (subst if_P [OF True])
  next
    case False
    then have "freeBuffer assertions m alignment draws mem buf =
        Inr (m', map (\<lambda>k. if large (mem (snd (evicted draws k p)))
                              then FreeLargePage (snd (evicted draws k p))
                              else AlignedFree (snd (evicted draws k p))) [0..<n])"
      using run unfolding m'_def by simp
    then have "\<exists>m'.
             freeBuffer assertions m alignment draws mem buf =
               Inr (m', map (\<lambda>k. if large (mem (snd (evicted draws k p)))
                              then FreeLargePage (snd (evicted draws k p))
                              else AlignedFree (snd (evicted draws k p))) [0..<n]) \<and>
             m' = (after_evictions draws n p)\<lparr>memoryWarningIssued := memoryWarningIssued m \<or> 0 < n\<rparr> \<and>
             (buffers m' = [] \<or> used m' + unusedBufferSize m' \<le> maxMemoryUse m')"
      using exit m'_def by blast
    then show ?thesis
      by (subst if_not_P [OF False])
  qed
  show ?thesis
    unfolding h_def [symmetric]
    using p_def p1 p2 n e1 e2 res
    by (intro exI [of _ n] exI [of _ p] conjI)
qed
qed

theorem freeBuffer_evicts_witness:
  "(4032 :: 64 word) \<noteq> 0 \<and> size_hdr (example_memory (4032 - 32)) \<noteq> 0 \<and>
   freeBuffer True example_pool 32 (\<lambda>_. Suc 0) example_memory 4032 =
     Inr (example_pool\<lparr>memoryWarningIssued := True, unusedBufferSize := 160,
            buffers := [(32, 2000), (128, 3000)]\<rparr>,
          [AlignedFree 4000, AlignedFree 1000]) \<and>
   freeBuffer True example_pool 32 (\<lambda>_. Suc 0) example_memory 0 = Inl (AssertionFailed ''buf'')"
proof -
  have b: "(4032 :: 64 word) \<noteq> 0"
    by simp
  have h: "size_hdr (example_memory (4032 - 32)) \<noteq> 0"
    by (simp add: example_memory_def)
  define p where "p = pushed example_pool (size_hdr (example_memory (4032 - 32))) (4032 - 32)"
  have p: "p = example_pool\<lparr>buffers := [(32, 2000), (32, 4000), (64, 1000), (128, 3000)],
      unusedBufferSize := 256\<rparr>"
    by (simp add: p_def pushed_emplace example_pool_def example_memory_def emplace_def)
  have s1: "after_evictions (\<lambda>_. Suc 0) (Suc 0) p =
      example_pool\<lparr>buffers := [(32, 2000), (64, 1000), (128, 3000)], unusedBufferSize := 224\<rparr>"
    by (simp add: p remove_block_erase erase_def example_pool_def)
  have s2: "after_evictions (\<lambda>_. Suc 0) (Suc (Suc 0)) p =
      example_pool\<lparr>buffers := [(32, 2000), (128, 3000)], unusedBufferSize := 160\<rparr>"
    unfolding after_evictions.simps(2) [of _ "Suc 0"] s1
    by (simp add: remove_block_erase erase_def example_pool_def)
  have e0: "evicted (\<lambda>_. Suc 0) 0 p = (32, 4000)"
    by (simp add: evicted_def p example_pool_def)
  have e1: "evicted (\<lambda>_. Suc 0) (Suc 0) p = (64, 1000)"
    unfolding evicted_def s1 by (simp add: example_pool_def)
  have o0: "over_limit (after_evictions (\<lambda>_. Suc 0) 0 p)"
    by (simp add: over_limit_def p example_pool_def)
  have o1: "over_limit (after_evictions (\<lambda>_. Suc 0) (Suc 0) p)"
    unfolding s1 by (simp add: over_limit_def example_pool_def)
  have o2: "\<not> over_limit (after_evictions (\<lambda>_. Suc 0) (Suc (Suc 0)) p)"
    unfolding s2 by (simp add: over_limit_def example_pool_def)
  have valid: "\<not> (True \<and> (4032 :: 64 word) = 0) \<and> size_hdr (example_memory (4032 - 32)) \<noteq> 0"
    using b h by simp
  have null: "freeBuffer True example_pool 32 (\<lambda>_. Suc 0) example_memory 0 =
      Inl (AssertionFailed ''buf'')"
    using freeBuffer_evicts [where buf = 0 and mem = example_memory and alignment = 32
      and m = example_pool and draws = "\<lambda>_. Suc 0" and assertions = True]
    by simp
  from freeBuffer_evicts [where buf = 4032 and mem = example_memory and alignment = 32
      and m = example_pool and draws = "\<lambda>_. Suc 0" and assertions = True,
      THEN conjunct2, THEN conjunct2, THEN mp, OF valid] obtain n where
    n: "\<forall>k<n. over_limit (after_evictions (\<lambda>_. Suc 0) k p)"
      "\<not> over_limit (after_evictions (\<lambda>_. Suc 0) n p)"
    and r: "if True \<and> (\<exists>k<n. unusedBufferSize (after_evictions (\<lambda>_. Suc 0) k p) < fst (evicted (\<lambda>_. Suc 0) k p))
      then freeBuffer True example_pool 32 (\<lambda>_. Suc 0) example_memory 4032 =
             Inl (AssertionFailed ''unusedBufferSize >= iter->first'')
      else \<exists>m'.
             freeBuffer True example_pool 32 (\<lambda>_. Suc 0) example_memory 4032 =
               Inr (m', map (\<lambda>k. if large (example_memory (snd (evicted (\<lambda>_. Suc 0) k p)))
                              then FreeLargePage (snd (evicted (\<lambda>_. Suc 0) k p))
                              else AlignedFree (snd (evicted (\<lambda>_. Suc 0) k p))) [0..<n]) \<and>
             m' = (after_evictions (\<lambda>_. Suc 0) n p)\<lparr>memoryWarningIssued := memoryWarningIssued example_pool \<or> 0 < n\<rparr> \<and>
             (buffers m' = [] \<or> used m' + unusedBufferSize m' \<le> maxMemoryUse m')"
    unfolding p_def by blast
  have "\<not> Suc (Suc 0) < n"
    using n(1) o2 by blast
  moreover have "n \<noteq> 0"
  proof
    assume e: "n = 0"
    show False
      using n(2) o0 unfolding e by (rule notE)
  qed
  moreover have "n \<noteq> Suc 0"
  proof
    assume e: "n = Suc 0"
    show False
      using n(2) o1 unfolding e by (rule notE)
  qed
  ultimately have n2: "n = Suc (Suc 0)"
    by simp
  have a0: "\<not> unusedBufferSize (after_evictions (\<lambda>_. Suc 0) 0 p) < fst (evicted (\<lambda>_. Suc 0) 0 p)"
    unfolding e0 by (simp add: p)
  have a1: "\<not> unusedBufferSize (after_evictions (\<lambda>_. Suc 0) (Suc 0) p) < fst (evicted (\<lambda>_. Suc 0) (Suc 0) p)"
    unfolding e1 s1 by simp
  have small: "\<not> (\<exists>k<n. unusedBufferSize (after_evictions (\<lambda>_. Suc 0) k p) < fst (evicted (\<lambda>_. Suc 0) k p))"
    unfolding n2
  proof (intro notI, elim exE conjE)
    fix k
    assume k: "k < Suc (Suc 0)"
      and f: "unusedBufferSize (after_evictions (\<lambda>_. Suc 0) k p) < fst (evicted (\<lambda>_. Suc 0) k p)"
    from k have "k = 0 \<or> k = Suc 0"
      by arith
    then show False
    proof
      assume e: "k = 0"
      show False
        using a0 f unfolding e by (rule notE)
    next
      assume e: "k = Suc 0"
      show False
        using a1 f unfolding e by (rule notE)
    qed
  qed
  have upt: "[0..<Suc (Suc 0)] = [0, Suc 0]"
    by (simp add: upt_conv_Cons)
  have "freeBuffer True example_pool 32 (\<lambda>_. Suc 0) example_memory 4032 =
      Inr ((after_evictions (\<lambda>_. Suc 0) n p)\<lparr>memoryWarningIssued := memoryWarningIssued example_pool \<or> 0 < n\<rparr>,
           map (\<lambda>k. if large (example_memory (snd (evicted (\<lambda>_. Suc 0) k p)))
                              then FreeLargePage (snd (evicted (\<lambda>_. Suc 0) k p))
                              else AlignedFree (snd (evicted (\<lambda>_. Suc 0) k p))) [0..<n])"
  proof -
    have ns: "\<not> (True \<and> (\<exists>k<n. unusedBufferSize (after_evictions (\<lambda>_. Suc 0) k p)
        < fst (evicted (\<lambda>_. Suc 0) k p)))"
      using small by simp
    from r show ?thesis
      unfolding if_not_P [OF ns] by blast
  qed
  then have "freeBuffer True example_pool 32 (\<lambda>_. Suc 0) example_memory 4032 =
     Inr (example_pool\<lparr>memoryWarningIssued := True, unusedBufferSize := 160,
            buffers := [(32, 2000), (128, 3000)]\<rparr>,
          [AlignedFree 4000, AlignedFree 1000])"
    unfolding n2 s2 upt
    by (simp add: e0 e1 freeMemory_def example_memory_def example_pool_def)
  with b h null show ?thesis
    by blast
qed

lemma lower_bound_le: "lower_bound k xs \<le> length xs"
  by (simp add: lower_bound_def length_takeWhile_le)

lemma lower_bound_end_iff:
  "lower_bound k xs = length xs \<longleftrightarrow> (\<forall>e\<in>set xs. fst e < k)"
proof -
  have "length (takeWhile (\<lambda>e. fst e < k) xs) = length xs \<longleftrightarrow> takeWhile (\<lambda>e. fst e < k) xs = xs"
    by (metis takeWhile_eq_take take_all order_refl)
  then show ?thesis
    by (simp add: lower_bound_def takeWhile_eq_all_conv)
qed

lemma lower_bound_before:
  assumes "j < lower_bound k xs"
  shows "fst (xs ! j) < k"
proof -
  let ?P = "\<lambda>e. fst e < k"
  have j: "j < length (takeWhile ?P xs)"
    using assms by (simp add: lower_bound_def)
  then have "takeWhile ?P xs ! j = xs ! j"
    by (rule takeWhile_nth)
  moreover have "takeWhile ?P xs ! j \<in> set (takeWhile ?P xs)"
    using j by (rule nth_mem)
  ultimately have "xs ! j \<in> set (takeWhile ?P xs)"
    by simp
  then show ?thesis
    by (rule set_takeWhileD [THEN conjunct2])
qed

lemma lower_bound_at:
  assumes "lower_bound k xs < length xs"
  shows "k \<le> fst (xs ! lower_bound k xs)"
proof -
  have "\<not> fst (xs ! length (takeWhile (\<lambda>e. fst e < k) xs)) < k"
    using assms unfolding lower_bound_def by (rule nth_length_takeWhile)
  then show ?thesis
    by (simp add: lower_bound_def)
qed

lemma lower_bound_Min:
  assumes srt: "sorted (map fst xs)" and lt: "lower_bound k xs < length xs"
  shows "fst (xs ! lower_bound k xs) = Min {s \<in> fst ` set xs. k \<le> s}"
proof -
  let ?i = "lower_bound k xs"
  let ?S = "{s \<in> fst ` set xs. k \<le> s}"
  have fin: "finite ?S"
    by simp
  have mem: "fst (xs ! ?i) \<in> ?S"
    using lt lower_bound_at [OF lt] by (simp add: image_iff) (metis nth_mem)
  have least: "fst (xs ! ?i) \<le> s" if "s \<in> ?S" for s
  proof -
    from that obtain j where j: "j < length xs" "s = fst (xs ! j)" "k \<le> fst (xs ! j)"
      by (auto simp: in_set_conv_nth)
    have "\<not> j < ?i"
      using lower_bound_before [of j k xs] j(3) by auto
    then have "?i \<le> j"
      by simp
    then have "map fst xs ! ?i \<le> map fst xs ! j"
      using srt j(1) by (simp add: sorted_iff_nth_mono del: nth_map)
    then show ?thesis
      using j lt by simp
  qed
  show ?thesis
    using fin mem least by (metis (lifting) Min_eqI)
qed

lemma allocBuffer_condition:
  assumes "sorted (map fst (buffers m))"
  shows "(lower_bound bytes (buffers m) \<noteq> length (buffers m) \<and>
          isGoodFit bytes (fst (buffers m ! lower_bound bytes (buffers m)))) \<longleftrightarrow>
         ({s \<in> fst ` set (buffers m). bytes \<le> s} \<noteq> {} \<and>
          isGoodFit bytes (Min {s \<in> fst ` set (buffers m). bytes \<le> s}))"
proof (cases "lower_bound bytes (buffers m) = length (buffers m)")
  case True
  then have "\<forall>e\<in>set (buffers m). fst e < bytes"
    by (simp add: lower_bound_end_iff)
  then have "{s \<in> fst ` set (buffers m). bytes \<le> s} = {}"
    by auto
  with True show ?thesis
    by simp
next
  case False
  then have "\<not> (\<forall>e\<in>set (buffers m). fst e < bytes)"
    by (simp add: lower_bound_end_iff)
  then have ne: "{s \<in> fst ` set (buffers m). bytes \<le> s} \<noteq> {}"
    by (auto simp: not_less)
  have "lower_bound bytes (buffers m) < length (buffers m)"
    using False lower_bound_le [of bytes "buffers m"] by simp
  then have "fst (buffers m ! lower_bound bytes (buffers m)) =
      Min {s \<in> fst ` set (buffers m). bytes \<le> s}"
    using assms by (intro lower_bound_Min)
  with False ne show ?thesis
    by simp
qed

text \<open>
  The size that \<^verbatim>\<open>allocateLargePage\<close> rounds up to is a multiple of the granularity when
  that is a power of two: its assertion does not fail.
\<close>

lemma rounded_multiple:
  fixes x :: "'w::len word"
  shows "(x AND NOT (2 ^ k - 1)) mod 2 ^ k = 0"
proof -
  have m: "(2 :: 'w word) ^ k - 1 = mask k"
    by (simp add: mask_eq_exp_minus_1)
  have "take_bit k (x AND NOT (mask k)) = 0"
    by (simp add: take_bit_eq_mask bit_eq_iff bit_simps)
  then show ?thesis
    unfolding m by (simp add: take_bit_eq_mod)
qed

lemma allocateMemory_result:
  "allocateMemory m alignment granularity lp sp mem bytes =
     (if largePageEnabled m \<and>
         ((alignment + bytes + (granularity - 1)) AND NOT (granularity - 1)) - alignment
           \<le> bytes + bytes div 8 \<and> lp \<noteq> 0
      then Inr (lp, mem(lp := \<lparr>size_hdr =
                  ((alignment + bytes + (granularity - 1)) AND NOT (granularity - 1)) - alignment,
                  large = True\<rparr>))
      else if sp \<noteq> 0 then Inr (sp, mem(sp := \<lparr>size_hdr = bytes, large = False\<rparr>))
      else Inl (Fatal ''out of memory''))"
  by (simp add: allocateMemory_def allocateLargePage_def isGoodFit_def Let_def)

text \<open>
  C2. With the freed blocks kept in key order (as a multimap does), \<^verbatim>\<open>allocBuffer(bytes)\<close>
  returns a recycled block exactly when a freed block of size at least \<open>bytes\<close> exists and
  the smallest such size is a good fit, \<open>size \<le> bytes + bytes / 8\<close> in \<^verbatim>\<open>size_t\<close> arithmetic.
  The recycled block is the first one of that smallest size, and it leaves the map.
  Otherwise a fresh allocation is made and the map is unchanged: where large pages are
  enabled, the rounded size is a good fit and the system grants the large page \<open>lp\<close>, it is
  that page, with the rounded size in its header; else, where the system grants the
  standard allocation \<open>sp\<close>, it is that block, with \<open>bytes\<close> in its header; and only when the
  system has no memory the call ends in the fatal error.
\<close>

theorem allocBuffer_reuse:
  assumes "sorted (map fst (buffers m))"
  shows
    "({s \<in> fst ` set (buffers m). bytes \<le> s} \<noteq> {} \<and>
      Min {s \<in> fst ` set (buffers m). bytes \<le> s} \<le> bytes + bytes div 8 \<longrightarrow>
        (\<exists>i<length (buffers m).
           fst (buffers m ! i) = Min {s \<in> fst ` set (buffers m). bytes \<le> s} \<and>
           (\<forall>j<i. fst (buffers m ! j) < bytes) \<and>
           allocBuffer m alignment granularity lp sp mem bytes =
             Inr (snd (buffers m ! i) + alignment,
                  m\<lparr>unusedBufferSize := unusedBufferSize m - fst (buffers m ! i),
                    buffers := take i (buffers m) @ drop (Suc i) (buffers m)\<rparr>,
                  mem))) \<and>
     (\<not> ({s \<in> fst ` set (buffers m). bytes \<le> s} \<noteq> {} \<and>
         Min {s \<in> fst ` set (buffers m). bytes \<le> s} \<le> bytes + bytes div 8) \<longrightarrow>
        allocBuffer m alignment granularity lp sp mem bytes =
          (if largePageEnabled m \<and>
              ((alignment + bytes + (granularity - 1)) AND NOT (granularity - 1)) - alignment
                \<le> bytes + bytes div 8 \<and> lp \<noteq> 0
           then Inr (lp + alignment, m,
                     mem(lp := \<lparr>size_hdr =
                       ((alignment + bytes + (granularity - 1)) AND NOT (granularity - 1)) - alignment,
                       large = True\<rparr>))
           else if sp \<noteq> 0
           then Inr (sp + alignment, m, mem(sp := \<lparr>size_hdr = bytes, large = False\<rparr>))
           else Inl (Fatal ''out of memory'')))"
proof -
  let ?i = "lower_bound bytes (buffers m)"
  let ?S = "{s \<in> fst ` set (buffers m). bytes \<le> s}"
  let ?code = "?i \<noteq> length (buffers m) \<and> isGoodFit bytes (fst (buffers m ! ?i))"
  have cond: "?code \<longleftrightarrow> ?S \<noteq> {} \<and> Min ?S \<le> bytes + bytes div 8"
    using allocBuffer_condition [OF assms, of bytes] by (simp add: isGoodFit_def)
  show ?thesis
  proof (cases ?code)
    case True
    then have i: "?i < length (buffers m)"
      using lower_bound_le [of bytes "buffers m"] by simp
    then have minS: "fst (buffers m ! ?i) = Min ?S"
      using assms by (intro lower_bound_Min)
    have first: "\<forall>j<?i. fst (buffers m ! j) < bytes"
      using lower_bound_before [of _ bytes "buffers m"] by blast
    have res: "allocBuffer m alignment granularity lp sp mem bytes =
        Inr (snd (buffers m ! ?i) + alignment,
             m\<lparr>unusedBufferSize := unusedBufferSize m - fst (buffers m ! ?i),
               buffers := take ?i (buffers m) @ drop (Suc ?i) (buffers m)\<rparr>,
             mem)"
      using True by (simp add: allocBuffer_def erase_def Let_def)
    have ex: "\<exists>i<length (buffers m). fst (buffers m ! i) = Min ?S \<and>
        (\<forall>j<i. fst (buffers m ! j) < bytes) \<and>
        allocBuffer m alignment granularity lp sp mem bytes =
          Inr (snd (buffers m ! i) + alignment,
               m\<lparr>unusedBufferSize := unusedBufferSize m - fst (buffers m ! i),
                 buffers := take i (buffers m) @ drop (Suc i) (buffers m)\<rparr>,
               mem)"
      using i minS first res by (intro exI [of _ ?i] conjI)
    have fit: "?S \<noteq> {} \<and> Min ?S \<le> bytes + bytes div 8"
      using True cond by simp
    show ?thesis
    proof (intro conjI impI, goal_cases)
      case 1
      show ?case by (rule ex)
    next
      case 2
      from 2 fit show ?case by (rule notE)
    qed
  next
    case False
    then have "allocBuffer m alignment granularity lp sp mem bytes =
          (case allocateMemory m alignment granularity lp sp mem bytes of
             Inl e \<Rightarrow> Inl e
           | Inr (blk, mem') \<Rightarrow> Inr (blk + alignment, m, mem'))"
      unfolding allocBuffer_def Let_def by (rule if_not_P)
    then have res: "allocBuffer m alignment granularity lp sp mem bytes =
          (if largePageEnabled m \<and>
              ((alignment + bytes + (granularity - 1)) AND NOT (granularity - 1)) - alignment
                \<le> bytes + bytes div 8 \<and> lp \<noteq> 0
           then Inr (lp + alignment, m,
                     mem(lp := \<lparr>size_hdr =
                       ((alignment + bytes + (granularity - 1)) AND NOT (granularity - 1)) - alignment,
                       large = True\<rparr>))
           else if sp \<noteq> 0
           then Inr (sp + alignment, m, mem(sp := \<lparr>size_hdr = bytes, large = False\<rparr>))
           else Inl (Fatal ''out of memory''))"
      unfolding allocateMemory_result by simp
    have nofit: "\<not> (?S \<noteq> {} \<and> Min ?S \<le> bytes + bytes div 8)"
      using False cond by simp
    show ?thesis
    proof (intro conjI impI, goal_cases)
      case 1
      from nofit 1 show ?case by (rule notE)
    next
      case 2
      show ?case by (rule res)
    qed
  qed
qed

theorem allocBuffer_reuse_witness:
  "sorted (map fst (buffers example_pool)) \<and>
   allocBuffer example_pool 32 2097152 0 5000 example_memory 60 =
     Inr (1032,
          example_pool\<lparr>unusedBufferSize := 160, buffers := [(32, 2000), (128, 3000)]\<rparr>,
          example_memory) \<and>
   allocBuffer example_pool 32 2097152 0 5000 example_memory 40 =
     Inr (5032, example_pool, example_memory(5000 := \<lparr>size_hdr = 40, large = False\<rparr>)) \<and>
   allocBuffer example_pool 32 2097152 0 0 example_memory 40 = Inl (Fatal ''out of memory'')"
proof -
  have srt: "sorted (map fst (buffers example_pool))"
    by (simp add: example_pool_def)
  have S60: "{s \<in> fst ` set (buffers example_pool). 60 \<le> s} = {64, 128}"
    by (auto simp: example_pool_def)
  have S40: "{s \<in> fst ` set (buffers example_pool). 40 \<le> s} = {64, 128}"
    by (auto simp: example_pool_def)
  have fit: "{s \<in> fst ` set (buffers example_pool). 60 \<le> s} \<noteq> {} \<and>
      Min {s \<in> fst ` set (buffers example_pool). 60 \<le> s} \<le> (60 :: 64 word) + 60 div 8"
    unfolding S60 by simp
  have nofit: "\<not> ({s \<in> fst ` set (buffers example_pool). 40 \<le> s} \<noteq> {} \<and>
      Min {s \<in> fst ` set (buffers example_pool). 40 \<le> s} \<le> (40 :: 64 word) + 40 div 8)"
    unfolding S40 by simp
  have small: "\<not> largePageEnabled example_pool"
    by (simp add: example_pool_def)
  from allocBuffer_reuse [OF srt, of 60 32 2097152 0 5000 example_memory] fit
  obtain i where i: "i < length (buffers example_pool)"
    "fst (buffers example_pool ! i) = Min {s \<in> fst ` set (buffers example_pool). 60 \<le> s}"
    "allocBuffer example_pool 32 2097152 0 5000 example_memory 60 =
       Inr (snd (buffers example_pool ! i) + 32,
            example_pool\<lparr>unusedBufferSize := unusedBufferSize example_pool - fst (buffers example_pool ! i),
                  buffers := take i (buffers example_pool) @ drop (Suc i) (buffers example_pool)\<rparr>,
            example_memory)"
    by blast
  have "i = 1"
    using i(1,2) unfolding S60 by (auto simp: example_pool_def less_Suc_eq)
  then have reuse: "allocBuffer example_pool 32 2097152 0 5000 example_memory 60 =
     Inr (1032,
          example_pool\<lparr>unusedBufferSize := 160, buffers := [(32, 2000), (128, 3000)]\<rparr>,
          example_memory)"
    using i(3) by (simp add: example_pool_def)
  have fresh: "allocBuffer example_pool 32 2097152 0 5000 example_memory 40 =
     Inr (5032, example_pool, example_memory(5000 := \<lparr>size_hdr = 40, large = False\<rparr>))"
    using conjunct2 [OF allocBuffer_reuse [OF srt, of 40 32 2097152 0 5000 example_memory],
        THEN mp, OF nofit] small
    by simp
  have none: "allocBuffer example_pool 32 2097152 0 0 example_memory 40 = Inl (Fatal ''out of memory'')"
    using conjunct2 [OF allocBuffer_reuse [OF srt, of 40 32 2097152 0 0 example_memory],
        THEN mp, OF nofit] small
    by simp
  show ?thesis
    using srt reuse fresh none by blast
qed

subsection \<open>The free list stays sorted\<close>

text \<open>
  The free list is a \<^verbatim>\<open>std::multimap\<close>, so it is sorted by size at every moment. In the model
  it is a list, and the sortedness is an invariant of every state a pool goes through: the
  constructor starts with the empty list, \<^verbatim>\<open>allocBuffer\<close> only erases,
  \<^verbatim>\<open>freeBuffer\<close> inserts at the lower bound and then erases.
\<close>

lemma allocBuffer_sorted:
  assumes "allocBuffer m alignment granularity lp sp mem bytes = Inr (buf, m', mem')"
    and "sorted (map fst (buffers m))"
  shows "sorted (map fst (buffers m'))"
proof (cases "lower_bound bytes (buffers m) \<noteq> length (buffers m) \<and>
    isGoodFit bytes (fst (buffers m ! lower_bound bytes (buffers m)))")
  case True
  with assms(1) have "buffers m' = erase (lower_bound bytes (buffers m)) (buffers m)"
    by (auto simp: allocBuffer_def Let_def)
  with assms(2) show ?thesis
    by (simp add: sorted_erase)
next
  case False
  with assms(1) have "m' = m"
    by (auto simp: allocBuffer_def Let_def split: sum.splits)
  with assms(2) show ?thesis
    by simp
qed

lemma freeBuffer_sorted:
  assumes "freeBuffer assertions m alignment draws mem buf = Inr (m', freed)"
    and "sorted (map fst (buffers m))"
  shows "sorted (map fst (buffers m'))"
proof -
  define p where "p = pushed m (size_hdr (mem (buf - alignment))) (buf - alignment)"
  from freeBuffer_Inr [OF assms(1)] obtain n where
    m': "m' = (after_evictions draws n p)\<lparr>memoryWarningIssued := memoryWarningIssued m \<or> 0 < n\<rparr>"
    unfolding p_def by blast
  have "sorted (map fst (buffers p))"
    using assms(2) by (simp add: p_def pushed_emplace sorted_emplace)
  then have "sorted (map fst (buffers (after_evictions draws n p)))"
    by (rule sorted_after_evictions)
  then show ?thesis
    by (simp add: m')
qed

lemma pool_state_sorted:
  "pool_state alignment granularity m \<Longrightarrow> sorted (map fst (buffers m))"
proof (induction rule: pool_state.induct)
  case (constructed os uninit)
  show ?case by (simp add: MemoryUse_ctor_def setMaxMemoryUse_def Let_def)
next
  case (after_allocBuffer m lp sp mem bytes buf m' mem')
  then show ?case
    by (simp add: allocBuffer_sorted)
next
  case (after_freeBuffer m assertions draws mem buf m' freed)
  then show ?case
    by (simp add: freeBuffer_sorted)
next
  case (after_setMaxMemoryUse m bytes)
  then show ?case by (simp add: setMaxMemoryUse_def Let_def)
next
  case (after_add m bytes)
  then show ?case by (simp add: add_def)
next
  case (after_subtract m bytes m')
  then show ?case by (auto simp: subtract_def Let_def split: if_splits)
next
  case (after_signalFree m m')
  then show ?case by (auto simp: signalFree_def Let_def split: if_splits)
qed

text \<open>
  Where the sum does not wrap, \<^verbatim>\<open>isGoodFit\<close> reads as the arithmetic of the
  naturals: the block is at most one eighth larger than the request.
\<close>

lemma isGoodFit_unat:
  fixes requested actual :: "'w::len word"
  assumes "3 < LENGTH('w)" and "unat requested + unat requested div 8 < 2 ^ LENGTH('w)"
  shows "isGoodFit requested actual \<longleftrightarrow> unat actual \<le> unat requested + unat requested div 8"
proof -
  have "(2::nat) ^ 4 \<le> 2 ^ LENGTH('w)"
    using assms(1) by (intro power_increasing) simp_all
  then have "(8::nat) < 2 ^ LENGTH('w)"
    by simp
  then have eight: "unat (8 :: 'w word) = 8"
    by (simp add: unat_numeral take_bit_nat_eq_self)
  have d: "unat (requested div 8) = unat requested div 8"
    by (simp only: unat_div eight)
  have "unat requested + unat (requested div 8) < 2 ^ LENGTH('w)"
    using assms(2) d by simp
  then have "unat (requested + requested div 8) = unat requested + unat (requested div 8)"
    by (simp add: unat_add_lem)
  then show ?thesis
    by (simp add: isGoodFit_def word_le_nat_alt d)
qed

subsection \<open>Audio nodes\<close>

lemma frame_count_arith:
  assumes "1 \<le> n" "n \<le> INT_MAX * VS_AUDIO_FRAME_SAMPLES"
  shows "wrap_int32 (c_div (wrap_int64 (wrap_int64 (n + VS_AUDIO_FRAME_SAMPLES) - 1)) VS_AUDIO_FRAME_SAMPLES)
           = (n + 3071) div 3072"
proof -
  have n: "1 \<le> n" "n \<le> 6597069763584"
    using assms by (simp_all add: INT_MAX_def VS_AUDIO_FRAME_SAMPLES_def)
  have w1: "wrap_int64 (n + 3072) = n + 3072"
    using n by (simp add: wrap_int64_def)
  have w2: "wrap_int64 (n + 3072 - 1) = n + 3071"
    using n by (simp add: wrap_int64_def)
  have d: "c_div (n + 3071) 3072 = (n + 3071) div 3072"
    using n by (simp add: c_div_def sgn_if)
  have "0 \<le> (n + 3071) div 3072" "(n + 3071) div 3072 \<le> 2147483647"
    using n by simp_all
  then have w3: "wrap_int32 ((n + 3071) div 3072) = (n + 3071) div 3072"
    by (simp add: wrap_int32_def)
  show ?thesis
    unfolding VS_AUDIO_FRAME_SAMPLES_def w1 w2 d w3 by (rule refl)
qed

lemma maxSamples_value: "wrap_int64 (INT_MAX * VS_AUDIO_FRAME_SAMPLES) = INT_MAX * VS_AUDIO_FRAME_SAMPLES"
  by (simp add: wrap_int64_def INT_MAX_def VS_AUDIO_FRAME_SAMPLES_def)

lemma audio_outputs_Inr:
  assumes "audio_outputs stInteger stFloat name ais = Inr outs"
  shows "length outs = length ais \<and>
         (\<forall>i<length ais.
            isValidAudioInfo stInteger stFloat (ais ! i) \<and>
            numSamples (ais ! i) \<le> INT_MAX * VS_AUDIO_FRAME_SAMPLES \<and>
            outs ! i = (ais ! i)\<lparr>numFrames := (numSamples (ais ! i) + 3071) div 3072\<rparr>)"
  using assms
proof (induction ais arbitrary: outs)
  case Nil
  then show ?case by simp
next
  case (Cons a rest)
  from Cons.prems have valid: "isValidAudioInfo stInteger stFloat a"
    by (auto split: if_splits)
  then have pos: "1 \<le> numSamples a"
    by (auto simp: isValidAudioInfo_def split: if_splits)
  from Cons.prems valid have le: "numSamples a \<le> INT_MAX * VS_AUDIO_FRAME_SAMPLES"
    by (auto simp: Let_def maxSamples_value split: if_splits)
  from Cons.prems valid le obtain outs' where
    rest: "audio_outputs stInteger stFloat name rest = Inr outs'"
    and outs: "outs = a\<lparr>numFrames := (numSamples a + 3071) div 3072\<rparr> # outs'"
    by (auto simp: Let_def maxSamples_value frame_count_arith [OF pos le] split: sum.splits)
  have ih: "length outs' = length rest \<and>
         (\<forall>i<length rest.
            isValidAudioInfo stInteger stFloat (rest ! i) \<and>
            numSamples (rest ! i) \<le> INT_MAX * VS_AUDIO_FRAME_SAMPLES \<and>
            outs' ! i = (rest ! i)\<lparr>numFrames := (numSamples (rest ! i) + 3071) div 3072\<rparr>)"
    using Cons.IH rest by simp
  show ?case
  proof (intro conjI allI impI)
    show "length outs = length (a # rest)"
      using ih outs by simp
  next
    fix i assume "i < length (a # rest)"
    then show "isValidAudioInfo stInteger stFloat ((a # rest) ! i)"
      using ih valid by (cases i) simp_all
  next
    fix i assume "i < length (a # rest)"
    then show "numSamples ((a # rest) ! i) \<le> INT_MAX * VS_AUDIO_FRAME_SAMPLES"
      using ih le by (cases i) simp_all
  next
    fix i assume "i < length (a # rest)"
    then show "outs ! i = ((a # rest) ! i)\<lparr>numFrames := (numSamples ((a # rest) ! i) + 3071) div 3072\<rparr>"
      using ih outs by (cases i) simp_all
  qed
qed

lemma audio_outputs_too_many:
  assumes "a \<in> set ais" "numSamples a > INT_MAX * VS_AUDIO_FRAME_SAMPLES"
  shows "\<exists>e. audio_outputs stInteger stFloat name ais = Inl e"
proof (cases "audio_outputs stInteger stFloat name ais")
  case (Inl e)
  then show ?thesis by simp
next
  case (Inr outs)
  from assms(1) obtain i where "i < length ais" "ais ! i = a"
    by (auto simp: in_set_conv_nth)
  with audio_outputs_Inr [OF Inr] have "numSamples a \<le> INT_MAX * VS_AUDIO_FRAME_SAMPLES"
    by auto
  with assms(2) show ?thesis by simp
qed

lemma audio_outputs_ok:
  assumes "\<forall>a\<in>set ais. isValidAudioInfo stInteger stFloat a \<and> numSamples a \<le> INT_MAX * VS_AUDIO_FRAME_SAMPLES"
  shows "\<exists>outs. audio_outputs stInteger stFloat name ais = Inr outs"
  using assms
proof (induction ais)
  case Nil
  show ?case by simp
next
  case (Cons a rest)
  then obtain outs where "audio_outputs stInteger stFloat name rest = Inr outs"
    by auto
  with Cons.prems show ?case
    by (simp add: Let_def maxSamples_value)
qed

text \<open>
  C6. For an output \<open>i\<close> of an audio node:
  \<^item> when its declared \<open>numSamples\<close> exceeds \<open>INT_MAX * 3072\<close> the constructor throws;
  \<^item> the constructor returns a node exactly when the flags are legal, there is at least one
    output, and every output is a valid \<^verbatim>\<open>VSAudioInfo\<close> of at most \<open>INT_MAX * 3072\<close> samples:
    no smaller number of samples is refused for its size;
  \<^item> the node it returns has one entry for each output, and the frame count stored for
    output \<open>i\<close> is \<open>\<lceil>numSamples / 3072\<rceil>\<close>, which is \<open>(numSamples + 3071) div 3072\<close>; the 64-bit sum
    and the conversion to \<^verbatim>\<open>int\<close> do not wrap.
\<close>

theorem audio_frame_count:
  assumes "i < length ais" "int i < numOutputs"
  shows
    "(numSamples (ais ! i) > INT_MAX * 3072 \<longrightarrow>
        (\<exists>e. VSNode_audio nf stInteger stFloat name ais numOutputs flags = Inl e)) \<and>
     ((\<exists>node. VSNode_audio nf stInteger stFloat name ais numOutputs flags = Inr node) \<longleftrightarrow>
        flags AND NOT (nfNoCache nf OR nfIsCache nf OR nfMakeLinear nf OR nfFrameReady nf) = 0 \<and>
        (flags AND nfIsCache nf = 0 \<or> flags AND nfNoCache nf \<noteq> 0) \<and>
        1 \<le> numOutputs \<and>
        (\<forall>a\<in>set (take (nat numOutputs) ais).
           isValidAudioInfo stInteger stFloat a \<and> numSamples a \<le> INT_MAX * 3072)) \<and>
     (\<forall>node. VSNode_audio nf stInteger stFloat name ais numOutputs flags = Inr node \<longrightarrow>
        length (ai node) = length (take (nat numOutputs) ais) \<and>
        numSamples (ais ! i) \<le> INT_MAX * 3072 \<and>
        numSamples (ai node ! i) = numSamples (ais ! i) \<and>
        numFrames (ai node ! i) = \<lceil>real_of_int (numSamples (ais ! i)) / 3072\<rceil> \<and>
        numFrames (ai node ! i) = (numSamples (ais ! i) + 3071) div 3072)"
proof -
  let ?n = "nat numOutputs"
  let ?legal = "flags AND NOT (nfNoCache nf OR nfIsCache nf OR nfMakeLinear nf OR nfFrameReady nf) = 0 \<and>
        (flags AND nfIsCache nf = 0 \<or> flags AND nfNoCache nf \<noteq> 0) \<and> 1 \<le> numOutputs"
  have i: "i < length (take ?n ais)" and nth: "take ?n ais ! i = ais ! i"
    using assms by simp_all
  have ceil: "\<lceil>real_of_int k / 3072\<rceil> = (k + 3071) div 3072" for k :: int
    by linarith
  have fail: "\<exists>e. VSNode_audio nf stInteger stFloat name ais numOutputs flags = Inl e"
    if big: "numSamples (ais ! i) > INT_MAX * 3072"
  proof -
    have "ais ! i \<in> set (take ?n ais)"
      using i nth by (metis nth_mem)
    then obtain e where "audio_outputs stInteger stFloat name (take ?n ais) = Inl e"
      using audio_outputs_too_many [of "ais ! i" "take ?n ais" stInteger stFloat name] big
      by (auto simp: VS_AUDIO_FRAME_SAMPLES_def)
    then show ?thesis
      by (simp add: VSNode_audio_def)
  qed
  have outs: "?legal \<and> audio_outputs stInteger stFloat name (take ?n ais) = Inr (ai node)"
    if r: "VSNode_audio nf stInteger stFloat name ais numOutputs flags = Inr node" for node
    using r by (auto simp: VSNode_audio_def split: if_splits sum.splits)
  have ok: "length (ai node) = length (take ?n ais) \<and>
        numSamples (ais ! i) \<le> INT_MAX * 3072 \<and>
        numSamples (ai node ! i) = numSamples (ais ! i) \<and>
        numFrames (ai node ! i) = \<lceil>real_of_int (numSamples (ais ! i)) / 3072\<rceil> \<and>
        numFrames (ai node ! i) = (numSamples (ais ! i) + 3071) div 3072"
    if r: "VSNode_audio nf stInteger stFloat name ais numOutputs flags = Inr node" for node
  proof -
    have o: "audio_outputs stInteger stFloat name (take ?n ais) = Inr (ai node)"
      using outs [OF r] by simp
    from audio_outputs_Inr [OF o] i nth
    have "length (ai node) = length (take ?n ais)"
      and "numSamples (ais ! i) \<le> INT_MAX * VS_AUDIO_FRAME_SAMPLES"
      and "ai node ! i = (ais ! i)\<lparr>numFrames := (numSamples (ais ! i) + 3071) div 3072\<rparr>"
      by auto
    then show ?thesis
      by (simp add: ceil VS_AUDIO_FRAME_SAMPLES_def)
  qed
  have accepted_only_if: "?legal \<and>
      (\<forall>a\<in>set (take ?n ais). isValidAudioInfo stInteger stFloat a \<and> numSamples a \<le> INT_MAX * 3072)"
    if r: "VSNode_audio nf stInteger stFloat name ais numOutputs flags = Inr node" for node
  proof -
    have o: "audio_outputs stInteger stFloat name (take ?n ais) = Inr (ai node)"
      using outs [OF r] by simp
    have "isValidAudioInfo stInteger stFloat a \<and> numSamples a \<le> INT_MAX * 3072"
      if "a \<in> set (take ?n ais)" for a
    proof -
      from that obtain j where "j < length (take ?n ais)" "take ?n ais ! j = a"
        by (auto simp: in_set_conv_nth)
      with audio_outputs_Inr [OF o] show ?thesis
        by (auto simp: VS_AUDIO_FRAME_SAMPLES_def)
    qed
    with outs [OF r] show ?thesis
      by blast
  qed
  have accepted_if: "\<exists>node. VSNode_audio nf stInteger stFloat name ais numOutputs flags = Inr node"
    if legal: "?legal"
      and valid: "\<forall>a\<in>set (take ?n ais). isValidAudioInfo stInteger stFloat a \<and> numSamples a \<le> INT_MAX * 3072"
  proof -
    have "\<forall>a\<in>set (take ?n ais). isValidAudioInfo stInteger stFloat a \<and>
        numSamples a \<le> INT_MAX * VS_AUDIO_FRAME_SAMPLES"
      using valid by (simp add: VS_AUDIO_FRAME_SAMPLES_def)
    then obtain outs where "audio_outputs stInteger stFloat name (take ?n ais) = Inr outs"
      using audio_outputs_ok by blast
    then show ?thesis
      using legal by (auto simp: VSNode_audio_def)
  qed
  have c1: "numSamples (ais ! i) > INT_MAX * 3072 \<longrightarrow>
        (\<exists>e. VSNode_audio nf stInteger stFloat name ais numOutputs flags = Inl e)"
    using fail by blast
  have c2: "(\<exists>node. VSNode_audio nf stInteger stFloat name ais numOutputs flags = Inr node) \<longleftrightarrow>
        flags AND NOT (nfNoCache nf OR nfIsCache nf OR nfMakeLinear nf OR nfFrameReady nf) = 0 \<and>
        (flags AND nfIsCache nf = 0 \<or> flags AND nfNoCache nf \<noteq> 0) \<and>
        1 \<le> numOutputs \<and>
        (\<forall>a\<in>set (take (nat numOutputs) ais).
           isValidAudioInfo stInteger stFloat a \<and> numSamples a \<le> INT_MAX * 3072)"
    (is "?L \<longleftrightarrow> ?R")
  proof
    assume ?L
    then obtain node where "VSNode_audio nf stInteger stFloat name ais numOutputs flags = Inr node"
      by blast
    from accepted_only_if [OF this] show ?R
      by blast
  next
    assume r: ?R
    show ?L
    proof (rule accepted_if)
      show ?legal using r by blast
      show "\<forall>a\<in>set (take ?n ais). isValidAudioInfo stInteger stFloat a \<and> numSamples a \<le> INT_MAX * 3072"
        using r by blast
    qed
  qed
  have c3: "\<forall>node. VSNode_audio nf stInteger stFloat name ais numOutputs flags = Inr node \<longrightarrow>
        length (ai node) = length (take (nat numOutputs) ais) \<and>
        numSamples (ais ! i) \<le> INT_MAX * 3072 \<and>
        numSamples (ai node ! i) = numSamples (ais ! i) \<and>
        numFrames (ai node ! i) = \<lceil>real_of_int (numSamples (ais ! i)) / 3072\<rceil> \<and>
        numFrames (ai node ! i) = (numSamples (ais ! i) + 3071) div 3072"
    using ok by blast
  show ?thesis
    by (rule conjI [OF c1 conjI [OF c2 c3]])
qed

theorem audio_frame_count_witness:
  "0 < length [example_audio_info] \<and> int 0 < 1 \<and>
   (\<exists>node. VSNode_audio example_flags 0 1 ''src'' [example_audio_info] 1 0 = Inr node \<and>
      length (ai node) = 1 \<and> numFrames (ai node ! 0) = 2) \<and>
   (\<exists>node. VSNode_audio example_flags 0 1 ''src''
           [example_audio_info\<lparr>numSamples := 6597069763584\<rparr>] 1 0 = Inr node \<and>
      numFrames (ai node ! 0) = 2147483647) \<and>
   (\<exists>e. VSNode_audio example_flags 0 1 ''src''
           [example_audio_info\<lparr>numSamples := 6597069763585\<rparr>] 1 0 = Inl e)"
proof -
  have valid: "isValidAudioInfo 0 1 (example_audio_info\<lparr>numSamples := n\<rparr>)" if "1 \<le> n" for n
    using that by (simp add: example_audio_info_def isValidAudioInfo_def isValidAudioFormat_def)
  have legal: "(0::int) AND NOT (nfNoCache example_flags OR nfIsCache example_flags
      OR nfMakeLinear example_flags OR nfFrameReady example_flags) = 0"
    "(0::int) AND nfIsCache example_flags = 0"
    by simp_all
  have ok1: "\<exists>node. VSNode_audio example_flags 0 1 ''src'' [example_audio_info] 1 0 = Inr node"
    using audio_frame_count [of 0 "[example_audio_info]" 1 example_flags 0 1 "''src''" 0]
      legal valid [of 3073]
    by (simp add: example_audio_info_def INT_MAX_def)
  have ok2: "\<exists>node. VSNode_audio example_flags 0 1 ''src''
      [example_audio_info\<lparr>numSamples := 6597069763584\<rparr>] 1 0 = Inr node"
    using audio_frame_count [of 0 "[example_audio_info\<lparr>numSamples := 6597069763584\<rparr>]" 1
        example_flags 0 1 "''src''" 0]
      legal valid [of 6597069763584]
    by (simp add: INT_MAX_def)
  have big: "numSamples ([example_audio_info\<lparr>numSamples := 6597069763585\<rparr>] ! 0) > INT_MAX * 3072"
    by (simp add: INT_MAX_def)
  show ?thesis
    using ok1 ok2 big
      audio_frame_count [of 0 "[example_audio_info]" 1 example_flags 0 1 "''src''" 0]
      audio_frame_count [of 0 "[example_audio_info\<lparr>numSamples := 6597069763584\<rparr>]" 1
        example_flags 0 1 "''src''" 0]
      audio_frame_count [of 0 "[example_audio_info\<lparr>numSamples := 6597069763585\<rparr>]" 1
        example_flags 0 1 "''src''" 0]
    by (auto simp: example_audio_info_def)
qed

subsection \<open>Registration\<close>

lemma isAlpha_regex: "isAlpha c \<longleftrightarrow> c \<in> regex_letter"
  by (auto simp: isAlpha_def regex_letter_def)

lemma isAlphaNumUnderscore_regex: "isAlphaNumUnderscore c \<longleftrightarrow> c \<in> regex_word_char"
  by (auto simp: isAlphaNumUnderscore_def regex_word_char_def)

lemma isValidIdentifier_regex: "isValidIdentifier s \<longleftrightarrow> matches_identifier_regex s"
  by (cases s)
     (auto simp: matches_identifier_regex_def isAlpha_regex isAlphaNumUnderscore_regex
        list_all_iff)

text \<open>
  C5, as the claim states it, fails: a name that matches the regular expression is not
  enough. \<open>Blur\<close> matches, and its registration fails on a read-only plugin, with an
  argument string that does not parse, and when \<open>Blur\<close> is registered already.
\<close>

theorem registerFunction_counterexample:
  "matches_identifier_regex ''Blur'' \<and>
   \<not> fst (registerFunction 3 (example_plugin\<lparr>readOnly := True\<rparr>) ''Blur'' ''clip:vnode;'' ''clip:vnode;'' (\<lambda>in_map. [])) \<and>
   \<not> fst (registerFunction 3 example_plugin ''Blur'' ''clip:vnode:fast;'' ''clip:vnode;'' (\<lambda>in_map. [])) \<and>
   \<not> fst (registerFunction 3
            (snd (registerFunction 3 example_plugin ''Blur'' ''clip:vnode;'' ''clip:vnode;'' (\<lambda>in_map. [])))
            ''Blur'' ''clip:vnode;'' ''clip:vnode;'' (\<lambda>in_map. []))"
  unfolding isValidIdentifier_regex [symmetric] by code_simp

text \<open>
  C5, amended. \<^verbatim>\<open>registerFunction(name, args, returnType)\<close> succeeds if and only if \<open>name\<close>
  matches \<^verbatim>\<open>[A-Za-z][A-Za-z0-9_]*\<close>, the plugin is not read-only, no function of that name is
  registered, and both \<open>args\<close> and \<open>returnType\<close> parse as argument strings of the plugin's
  API generation.
\<close>

theorem registerFunction_succeeds_iff:
  "fst (registerFunction v3 p name args retType argsFunc) \<longleftrightarrow>
     matches_identifier_regex name \<and> \<not> readOnly p \<and> funcs p name = None \<and>
     (\<exists>as. parseArgString v3 args (apiMajor_pl p) = Inr as) \<and>
     (\<exists>rs. parseArgString v3 retType (apiMajor_pl p) = Inr rs)"
  by (auto simp: registerFunction_def VSPluginFunction_ctor_def isValidIdentifier_regex
      split: sum.splits)

theorem registerFunction_succeeds_iff_witness:
  "fst (registerFunction 3 example_plugin ''Blur'' ''clip:vnode;radius:int[]:opt;'' ''clip:vnode;'' (\<lambda>in_map. [])) \<and>
   matches_identifier_regex ''Blur'' \<and>
   \<not> fst (registerFunction 3 example_plugin ''2fast'' ''clip:vnode;'' ''clip:vnode;'' (\<lambda>in_map. [])) \<and>
   \<not> matches_identifier_regex ''2fast''"
proof -
  have "fst (registerFunction 3 example_plugin ''Blur'' ''clip:vnode;radius:int[]:opt;'' ''clip:vnode;'' (\<lambda>in_map. []))"
    by code_simp
  moreover have "\<not> fst (registerFunction 3 example_plugin ''2fast'' ''clip:vnode;'' ''clip:vnode;'' (\<lambda>in_map. []))"
    by code_simp
  ultimately show ?thesis
    using registerFunction_succeeds_iff [of 3 example_plugin "''Blur''" "''clip:vnode;radius:int[]:opt;''" "''clip:vnode;''" "\<lambda>in_map. []"]
      registerFunction_succeeds_iff [of 3 example_plugin "''2fast''" "''clip:vnode;''" "''clip:vnode;''" "\<lambda>in_map. []"]
    by (simp add: example_plugin_def)
qed

subsection \<open>Argument strings\<close>

declare split.simps [simp del]

lemma split_Nil: "split [] ds no_empties = []"
  by (subst split.simps) simp

lemma split_token:
  assumes "tok \<noteq> []" "d \<notin> set tok"
  shows "split (tok @ d # rest) [d] no_empties = tok # split rest [d] no_empties"
proof -
  obtain t ts where tok: "tok = t # ts"
    using assms(1) by (cases tok) auto
  have t: "t \<noteq> d"
    using assms(2) tok by auto
  have dw: "dropWhile (\<lambda>c. c \<in> set [d]) (tok @ d # rest) = tok @ d # rest"
    using t by (simp add: tok)
  have all: "\<forall>x\<in>set tok. x \<notin> set [d]"
    using assms(2) by auto
  have tw: "takeWhile (\<lambda>c. c \<notin> set [d]) (tok @ d # rest) = tok"
    using all by (simp add: takeWhile_append2)
  have dw2: "dropWhile (\<lambda>c. c \<notin> set [d]) (tok @ d # rest) = d # rest"
    using all by (simp add: dropWhile_append2)
  show ?thesis
    apply (subst split.simps)
    apply (simp only: Let_def dw tw dw2 simp_thms if_True)
    apply (simp add: tok)
    done
qed

lemma split_last:
  assumes "tok \<noteq> []" "d \<notin> set tok"
  shows "split tok [d] no_empties = [tok]"
proof -
  obtain t ts where tok: "tok = t # ts"
    using assms(1) by (cases tok) auto
  have t: "t \<noteq> d"
    using assms(2) tok by auto
  have dw: "dropWhile (\<lambda>c. c \<in> set [d]) tok = tok"
    using t by (simp add: tok)
  have all: "\<forall>x\<in>set tok. x \<notin> set [d]"
    using assms(2) by auto
  have tw: "takeWhile (\<lambda>c. c \<notin> set [d]) tok = tok"
    using all by (simp add: takeWhile_eq_all_conv)
  have dw2: "dropWhile (\<lambda>c. c \<notin> set [d]) tok = []"
    using all by (simp add: dropWhile_eq_Nil_conv)
  show ?thesis
    apply (subst split.simps)
    apply (simp only: Let_def dw tw dw2 simp_thms if_True)
    apply (simp add: tok)
    done
qed

lemma isValidIdentifier_chars:
  assumes "isValidIdentifier s"
  shows "s \<noteq> []" "CHR '':'' \<notin> set s" "CHR '';'' \<notin> set s"
proof -
  obtain c cs where s: "s = c # cs"
    using assms by (cases s) auto
  have c: "isAlpha c" and cs: "\<forall>x\<in>set cs. isAlphaNumUnderscore x"
    using assms by (auto simp: s list_all_iff split: if_splits)
  have a1: "\<not> isAlpha CHR '':''" "\<not> isAlpha CHR '';''"
    by (simp_all add: isAlpha_def less_eq_char_def)
  have a2: "\<not> isAlphaNumUnderscore CHR '':''" "\<not> isAlphaNumUnderscore CHR '';''"
    by (simp_all add: isAlphaNumUnderscore_def less_eq_char_def)
  show "s \<noteq> []" by (simp add: s)
  show "CHR '':'' \<notin> set s" using c cs a1 a2 by (auto simp: s)
  show "CHR '';'' \<notin> set s" using c cs a1 a2 by (auto simp: s)
qed

lemma split_modifiers:
  assumes "ty \<noteq> []" "CHR '':'' \<notin> set ty"
  shows "split (ty @ (if po then '':opt'' else '''') @ (if pe then '':empty'' else '''')) '':'' no_empties
           = ty # (if po then [''opt''] else []) @ (if pe then [''empty''] else [])"
proof -
  have opt: "split ''opt'' '':'' no_empties = [''opt'']"
    by (rule split_last) simp_all
  have empty: "split ''empty'' '':'' no_empties = [''empty'']"
    by (rule split_last) simp_all
  have both: "split (''opt'' @ CHR '':'' # ''empty'') '':'' no_empties = [''opt'', ''empty'']"
    using split_token [of "''opt''" "CHR '':''" "''empty''"] empty by simp
  show ?thesis
  proof (cases po; cases pe)
    assume "po" "pe"
    then show ?thesis
      using split_token [OF assms, of "''opt'' @ CHR '':'' # ''empty''"] both by simp
  next
    assume "po" "\<not> pe"
    then show ?thesis
      using split_token [OF assms, of "''opt''"] opt by simp
  next
    assume "\<not> po" "pe"
    then show ?thesis
      using split_token [OF assms, of "''empty''"] empty by simp
  next
    assume "\<not> po" "\<not> pe"
    then show ?thesis
      using split_last [OF assms] by simp
  qed
qed

lemma split_v3_arg_text:
  assumes "isValidIdentifier (name_fa a)" "tn \<noteq> []" "CHR '':'' \<notin> set tn"
  shows "split (v3_arg_text a tn) '':'' no_empties =
           name_fa a # (tn @ (if arr_fa a then ''[]'' else ''''))
             # (if opt_fa a then [''opt''] else []) @ (if empty_fa a then [''empty''] else [])"
proof -
  let ?ty = "tn @ (if arr_fa a then ''[]'' else '''')"
  let ?mods = "(if opt_fa a then '':opt'' else '''') @ (if empty_fa a then '':empty'' else '''')"
  have ty: "?ty \<noteq> []" "CHR '':'' \<notin> set ?ty"
    using assms(2,3) by auto
  have body: "v3_arg_text a tn = name_fa a @ CHR '':'' # (?ty @ ?mods)"
    by (simp add: v3_arg_text_def)
  have "split (v3_arg_text a tn) '':'' no_empties = name_fa a # split (?ty @ ?mods) '':'' no_empties"
    unfolding body
    using isValidIdentifier_chars(1,2) [OF assms(1)] by (rule split_token)
  also have "split (?ty @ ?mods) '':'' no_empties =
      ?ty # (if opt_fa a then [''opt''] else []) @ (if empty_fa a then [''empty''] else [])"
    using ty by (rule split_modifiers)
  finally show ?thesis .
qed

lemma parseModifiers_emitted:
  "parseModifiers n ((if po then [''opt''] else []) @ (if pe then [''empty''] else [])) False False
     = Inr (po, pe)"
  by simp

lemma v3TypeName_cases:
  assumes "v3TypeName ty = Some tn"
  shows "(ty, tn) \<in> {(ptInt, ''int''), (ptFloat, ''float''), (ptData, ''data''),
           (ptVideoNode, ''clip''), (ptVideoFrame, ''frame''), (ptFunction, ''func'')}"
  using assms by (cases ty) (auto simp: v3TypeName_def)

lemma strip_suffix:
  assumes "(ty, tn) \<in> {(ptInt, ''int''), (ptFloat, ''float''), (ptData, ''data''),
           (ptVideoNode, ''clip''), (ptVideoFrame, ''frame''), (ptFunction, ''func'')}"
  shows "(length (tn @ (if b then ''[]'' else '''')) > 2 \<and>
          drop (length (tn @ (if b then ''[]'' else '''')) - 2) (tn @ (if b then ''[]'' else ''''))
            = ''[]'') = b"
    and "(if b then take (length (tn @ (if b then ''[]'' else '''')) - 2)
                      (tn @ (if b then ''[]'' else ''''))
          else tn @ (if b then ''[]'' else '''')) = tn"
    and "parseTypeName v3 v3 tn = Some ty"
    and "tn \<noteq> []" "CHR '':'' \<notin> set tn"
  using assms by (auto simp: parseTypeName_def)

lemma parseArg_v3_arg_text:
  assumes wf: "isValidIdentifier (name_fa a)" "empty_fa a \<longrightarrow> arr_fa a"
    and tn: "v3TypeName (type_fa a) = Some tn"
  shows "parseArg v3 v3 (v3_arg_text a tn) = Inr a"
proof -
  define tyn where "tyn = tn @ (if arr_fa a then ''[]'' else '''')"
  define mods where "mods = (if opt_fa a then [''opt''] else []) @ (if empty_fa a then [''empty''] else [])"
  have cases: "(type_fa a, tn) \<in> {(ptInt, ''int''), (ptFloat, ''float''), (ptData, ''data''),
           (ptVideoNode, ''clip''), (ptVideoFrame, ''frame''), (ptFunction, ''func'')}"
    using tn by (rule v3TypeName_cases)
  have parts: "split (v3_arg_text a tn) '':'' no_empties = name_fa a # tyn # mods"
    unfolding tyn_def mods_def
    using wf(1) strip_suffix(4,5) [OF cases] by (rule split_v3_arg_text)
  have isArr: "(length tyn > 2 \<and> drop (length tyn - 2) tyn = ''[]'') = arr_fa a"
    unfolding tyn_def by (rule strip_suffix(1) [OF cases])
  have stripped: "(if arr_fa a then take (length tyn - 2) tyn else tyn) = tn"
    unfolding tyn_def by (rule strip_suffix(2) [OF cases])
  have ty: "parseTypeName v3 v3 tn = Some (type_fa a)"
    by (rule strip_suffix(3) [OF cases])
  have pm: "parseModifiers (name_fa a) mods False False = Inr (opt_fa a, empty_fa a)"
    unfolding mods_def by (rule parseModifiers_emitted)
  have nth: "(name_fa a # tyn # mods) ! 0 = name_fa a" "(name_fa a # tyn # mods) ! 1 = tyn"
    "drop 2 (name_fa a # tyn # mods) = mods" "\<not> length (name_fa a # tyn # mods) < 2"
    by (simp_all add: numeral_2_eq_2)
  have "parseArg v3 v3 (v3_arg_text a tn) =
      Inr \<lparr>name_fa = name_fa a, type_fa = type_fa a, arr_fa = arr_fa a,
           empty_fa = empty_fa a, opt_fa = opt_fa a\<rparr>"
  proof (cases "arr_fa a")
    case True
    then have tk: "take (length tyn - 2) tyn = tn"
      using stripped by simp
    show ?thesis
      unfolding parseArg_def parts Let_def nth isArr
      using wf True by (simp add: tk ty pm)
  next
    case False
    then have tk: "tyn = tn"
      using stripped by simp
    show ?thesis
      unfolding parseArg_def parts Let_def nth isArr
      using wf False by (simp add: tk [symmetric] ty [folded tk] pm)
  qed
  then show ?thesis
    by simp
qed

lemma v3_compatible_arg_typeName:
  assumes "v3_compatible_arg a"
  shows "\<exists>tn. v3TypeName (type_fa a) = Some tn"
  using assms by (auto simp: v3_compatible_arg_def v3TypeName_def)

lemma getV3ArgString_loop_emitted:
  assumes "\<forall>a\<in>set args. v3_compatible_arg a"
  shows "getV3ArgString_loop args tmp =
           Some (tmp @ concat (map (\<lambda>a. v3_arg_emitted a @ '';'') args))"
  using assms
proof (induction args arbitrary: tmp)
  case Nil
  show ?case by simp
next
  case (Cons a args)
  from Cons.prems obtain tn where tn: "v3TypeName (type_fa a) = Some tn"
    using v3_compatible_arg_typeName by auto
  have not_audio: "type_fa a \<noteq> ptAudioNode" "type_fa a \<noteq> ptAudioFrame"
    using tn by (auto simp: v3TypeName_def)
  have step: "getV3ArgString_loop (a # args) tmp =
      getV3ArgString_loop args (tmp @ v3_arg_text a tn @ '';'')"
    using tn not_audio by (simp add: v3_arg_text_def)
  show ?case
    unfolding step using Cons.IH [of "tmp @ v3_arg_text a tn @ '';''"] Cons.prems tn
    by (simp add: v3_arg_emitted_def)
qed

lemma v3_arg_emitted_chars:
  assumes "v3_compatible_arg a"
  shows "v3_arg_emitted a \<noteq> []" "CHR '';'' \<notin> set (v3_arg_emitted a)"
proof -
  from assms obtain tn where tn: "v3TypeName (type_fa a) = Some tn"
    using v3_compatible_arg_typeName by auto
  have name: "name_fa a \<noteq> []" "CHR '';'' \<notin> set (name_fa a)"
    using assms isValidIdentifier_chars [of "name_fa a"] by (simp_all add: v3_compatible_arg_def)
  have "CHR '';'' \<notin> set tn"
    using v3TypeName_cases [OF tn] by auto
  then show "v3_arg_emitted a \<noteq> []" "CHR '';'' \<notin> set (v3_arg_emitted a)"
    using name tn by (simp_all add: v3_arg_emitted_def v3_arg_text_def)
qed

lemma split_emitted:
  assumes "\<forall>a\<in>set args. v3_compatible_arg a"
  shows "split (concat (map (\<lambda>a. v3_arg_emitted a @ '';'') args)) '';'' no_empties
           = map v3_arg_emitted args"
  using assms
proof (induction args)
  case Nil
  show ?case by (simp add: split_Nil)
next
  case (Cons a args)
  have "split (v3_arg_emitted a @ CHR '';'' # concat (map (\<lambda>a. v3_arg_emitted a @ '';'') args))
          '';'' no_empties
        = v3_arg_emitted a # split (concat (map (\<lambda>a. v3_arg_emitted a @ '';'') args)) '';'' no_empties"
    using v3_arg_emitted_chars [of a] Cons.prems by (intro split_token) simp_all
  then show ?case
    using Cons by simp
qed

lemma parseArgList_emitted:
  assumes "\<forall>a\<in>set args. v3_compatible_arg a"
  shows "parseArgList v3 v3 (map v3_arg_emitted args) = Inr args"
  using assms
proof (induction args)
  case Nil
  show ?case by simp
next
  case (Cons a args)
  from Cons.prems obtain tn where tn: "v3TypeName (type_fa a) = Some tn"
    using v3_compatible_arg_typeName by auto
  have "parseArg v3 v3 (v3_arg_text a tn) = Inr a"
    using Cons.prems tn by (intro parseArg_v3_arg_text) (simp_all add: v3_compatible_arg_def)
  then show ?case
    using Cons tn by (simp add: v3_arg_emitted_def)
qed

lemma parseTypeName_not_unset: "parseTypeName v3 apiMajor tn \<noteq> Some ptUnset"
  by (simp add: parseTypeName_def)

lemma parseArg_wf:
  assumes "parseArg v3 apiMajor s = Inr a"
  shows "isValidIdentifier (name_fa a) \<and> (empty_fa a \<longrightarrow> arr_fa a) \<and> type_fa a \<noteq> ptUnset"
  using assms parseTypeName_not_unset [of v3 apiMajor]
  unfolding parseArg_def Let_def
  by (auto split: if_splits option.splits sum.splits prod.splits)

lemma parseArgList_wf:
  assumes "parseArgList v3 apiMajor ss = Inr args"
  shows "\<forall>a\<in>set args.
           isValidIdentifier (name_fa a) \<and> (empty_fa a \<longrightarrow> arr_fa a) \<and> type_fa a \<noteq> ptUnset"
  using assms
proof (induction ss arbitrary: args)
  case Nil
  then show ?case by simp
next
  case (Cons s ss)
  from Cons.prems obtain a as where a: "parseArg v3 apiMajor s = Inr a"
    and as: "parseArgList v3 apiMajor ss = Inr as" and args: "args = a # as"
    by (auto split: sum.splits)
  show ?case
    using parseArg_wf [OF a] Cons.IH [OF as] by (simp add: args)
qed

text \<open>
  C8, amended. When an argument string parses (in the current generation or any other)
  to a list without audio node and audio frame arguments, \<^verbatim>\<open>getV3ArgString\<close> emits a string
  for it, and that string, parsed as a legacy argument string, gives the same list again:
  the same names, types and array, opt and empty flags, in the same order.
\<close>

theorem argString_roundtrip_v3:
  assumes "parseArgString v3 s apiMajor = Inr args"
    and "\<forall>a\<in>set args. type_fa a \<noteq> ptAudioNode \<and> type_fa a \<noteq> ptAudioFrame"
  shows "\<exists>t. getV3ArgString args = Some t \<and> parseArgString v3 t v3 = Inr args"
proof -
  have wf: "\<forall>a\<in>set args.
      isValidIdentifier (name_fa a) \<and> (empty_fa a \<longrightarrow> arr_fa a) \<and> type_fa a \<noteq> ptUnset"
    using assms(1) unfolding parseArgString_def by (rule parseArgList_wf)
  have compat: "\<forall>a\<in>set args. v3_compatible_arg a"
  proof
    fix a assume a: "a \<in> set args"
    then have "type_fa a \<noteq> ptUnset" "type_fa a \<noteq> ptAudioNode" "type_fa a \<noteq> ptAudioFrame"
      using wf assms(2) by auto
    then have "type_fa a \<in> {ptInt, ptFloat, ptData, ptVideoNode, ptVideoFrame, ptFunction}"
      by (cases "type_fa a") auto
    then show "v3_compatible_arg a"
      using wf a by (simp add: v3_compatible_arg_def)
  qed
  let ?t = "concat (map (\<lambda>a. v3_arg_emitted a @ '';'') args)"
  have "getV3ArgString args = Some ?t"
    using getV3ArgString_loop_emitted [OF compat, of "''''"] by (simp add: getV3ArgString_def)
  moreover have "parseArgString v3 ?t v3 = Inr args"
    unfolding parseArgString_def split_emitted [OF compat] by (rule parseArgList_emitted [OF compat])
  ultimately show ?thesis
    by blast
qed

text \<open>
  C8, as the claim states it, fails. The current-generation string \<open>a:anode;\<close> parses, and
  for its argument list the emitter's assertion fails, so that nothing is emitted. The
  string \<open>c:vnode;\<close> parses and is emitted as \<open>c:clip;\<close>, which does not parse in the
  current generation.
\<close>

theorem argString_roundtrip_counterexample:
  "parseArgString 3 ''a:anode;'' 4 = Inr [example_anode_arg] \<and>
   getV3ArgString [example_anode_arg] = None \<and>
   parseArgString 3 ''c:vnode;'' 4 = Inr [example_vnode_arg] \<and>
   getV3ArgString [example_vnode_arg] = Some ''c:clip;'' \<and>
   parseArgString 3 ''c:clip;'' 4 = Inl (InvalidType ''c'' ''clip'')"
  by code_simp

theorem argString_roundtrip_v3_witness:
  "parseArgString 3 ''c:vnode;r:int[]:opt:empty;'' 4 =
     Inr [example_vnode_arg,
          \<lparr>name_fa = ''r'', type_fa = ptInt, arr_fa = True, empty_fa = True, opt_fa = True\<rparr>] \<and>
   (\<exists>t. getV3ArgString
          [example_vnode_arg,
           \<lparr>name_fa = ''r'', type_fa = ptInt, arr_fa = True, empty_fa = True, opt_fa = True\<rparr>] = Some t \<and>
        parseArgString 3 t 3 =
          Inr [example_vnode_arg,
               \<lparr>name_fa = ''r'', type_fa = ptInt, arr_fa = True, empty_fa = True, opt_fa = True\<rparr>])"
proof -
  have p: "parseArgString 3 ''c:vnode;r:int[]:opt:empty;'' 4 =
     Inr [example_vnode_arg,
          \<lparr>name_fa = ''r'', type_fa = ptInt, arr_fa = True, empty_fa = True, opt_fa = True\<rparr>]"
    by code_simp
  show ?thesis
    using p argString_roundtrip_v3 [OF p] by (simp add: example_vnode_arg_def)
qed

subsection \<open>Invocation\<close>
















subsection \<open>Copy on write\<close>

lemma add_ref_live:
  assumes "st i = Some pd"
  shows "add_ref st (Some i) = Some (st(i \<mapsto> pd\<lparr>refcount_pd := refcount_pd pd + 1\<rparr>))"
  using assms by (simp add: add_ref_def)

lemma getWritePtr_shared:
  assumes video: "contentType g = mtVideo"
    and p: "0 \<le> p" "p < numPlanes g" "nat p < length (data_fr g)"
    and plane: "data_fr g ! nat p = Some i" "st i = Some pd"
    and shared: "2 \<le> refcount_pd pd"
    and fresh: "st new = None" "buf \<noteq> 0"
  shows "getWritePtr g p st gs new buf =
           Inr (buf + gs,
                g\<lparr>data_fr := (data_fr g)[nat p := Some new]\<rparr>,
                st(new \<mapsto> \<lparr>refcount_pd = 1, data_pd = buf, size_pd = size_pd pd,
                             bytes_pd = take (unat (size_pd pd)) (bytes_pd pd)\<rparr>,
                   i \<mapsto> pd\<lparr>refcount_pd := refcount_pd pd - 1\<rparr>))"
proof -
  have ne: "new \<noteq> i"
    using plane(2) fresh(1) by auto
  have not_unique: "\<not> unique pd"
    using shared by (simp add: unique_def)
  define copy where "copy = \<lparr>refcount_pd = 1, data_pd = buf, size_pd = size_pd pd,
                 bytes_pd = take (unat (size_pd pd)) (bytes_pd pd)\<rparr>"
  define st2 where "st2 = st(new \<mapsto> copy, i \<mapsto> pd\<lparr>refcount_pd := refcount_pd pd - 1\<rparr>)"
  have copy: "VSPlaneData_copy pd buf = Inr copy"
    using fresh(2) by (simp add: VSPlaneData_copy_def copy_def)
  have rel: "release (st(new \<mapsto> copy)) (Some i) = Some st2"
    using ne plane(2) shared by (simp add: release_def st2_def)
  have mu: "make_unique g (nat p) st new buf =
      Inr (g\<lparr>data_fr := (data_fr g)[nat p := Some new]\<rparr>, st2)"
    unfolding make_unique_def by (simp add: plane not_unique copy rel Let_def)
  have d: "data_of st2 (Some new) = Inr buf"
    using ne by (simp add: data_of_def copy_def st2_def)
  have "getWritePtr g p st gs new buf =
      Inr (buf + gs, g\<lparr>data_fr := (data_fr g)[nat p := Some new]\<rparr>, st2)"
    unfolding getWritePtr_def mu using p video by (simp add: d)
  then show ?thesis
    unfolding st2_def copy_def .
qed

lemma add_ref_grows:
  assumes "st i = Some pd"
  obtains st' where "add_ref st (Some i) = Some st'"
    and "\<And>j. st j = None \<Longrightarrow> st' j = None"
    and "\<And>j q. st j = Some q \<Longrightarrow>
           \<exists>q'. st' j = Some q' \<and> data_pd q' = data_pd q \<and> refcount_pd q \<le> refcount_pd q'"
    and "\<exists>q'. st' i = Some q' \<and> refcount_pd q' = refcount_pd pd + 1"
proof
  let ?st' = "st(i \<mapsto> pd\<lparr>refcount_pd := refcount_pd pd + 1\<rparr>)"
  show "add_ref st (Some i) = Some ?st'"
    using assms by (rule add_ref_live)
  show "?st' j = None" if "st j = None" for j
    using that assms by auto
  show "\<exists>q'. ?st' j = Some q' \<and> data_pd q' = data_pd q \<and> refcount_pd q \<le> refcount_pd q'"
    if "st j = Some q" for j q
    using that assms by (cases "j = i") auto
  show "\<exists>q'. ?st' i = Some q' \<and> refcount_pd q' = refcount_pd pd + 1"
    by simp
qed

lemma VSFrameRef_copy_shares:
  assumes ok: "video_frame_ok f (st :: 'w::len plane_store)"
  shows "\<exists>g st1. VSFrameRef_copy f st = Some (g, st1) \<and>
           data_fr g = data_fr f \<and> numPlanes g = numPlanes f \<and> contentType g = contentType f \<and>
           (\<forall>j. st j = None \<longrightarrow> st1 j = None) \<and>
           (\<forall>j pd. st j = Some pd \<longrightarrow>
              (\<exists>pd'. st1 j = Some pd' \<and> data_pd pd' = data_pd pd \<and>
                     refcount_pd pd \<le> refcount_pd pd')) \<and>
           (\<forall>k < nat (numPlanes f). \<forall>i. data_fr f ! k = Some i \<longrightarrow>
              (\<exists>pd'. st1 i = Some pd' \<and> 2 \<le> refcount_pd pd'))"
proof -
  from ok have len: "length (data_fr f) = 3"
    and planes: "\<And>k. k < nat (numPlanes f) \<Longrightarrow>
        \<exists>i pd. data_fr f ! k = Some i \<and> st i = Some pd \<and> 1 \<le> refcount_pd pd"
    and n: "numPlanes f = 1 \<or> numPlanes f = 3"
    and single: "numPlanes f = 1 \<longrightarrow> data_fr f ! 1 = None \<and> data_fr f ! 2 = None"
    by (simp_all add: video_frame_ok_def)
  from len obtain d0 d1 d2 where df: "data_fr f = [d0, d1, d2]"
    by (auto simp: numeral_3_eq_3 length_Suc_conv)
  have nth: "data_fr f ! 0 = d0" "data_fr f ! 1 = d1" "data_fr f ! 2 = d2"
    by (simp_all add: df)
  define g where "g = \<lparr>contentType = contentType f,
      data_fr = [data_fr f ! 0, data_fr f ! 1, data_fr f ! 2],
      numPlanes = numPlanes f, width_fr = width_fr f, height_fr = height_fr f,
      stride_fr = [stride_fr f ! 0, stride_fr f ! 1, stride_fr f ! 2]\<rparr>"
  have g: "data_fr g = data_fr f" "numPlanes g = numPlanes f" "contentType g = contentType f"
    by (simp_all add: g_def df)
  have "0 < nat (numPlanes f)"
    using n by auto
  from planes [OF this] obtain i0 pd0 where p0: "d0 = Some i0" "st i0 = Some pd0" "1 \<le> refcount_pd pd0"
    unfolding nth by blast
  from add_ref_grows [where st = st and i = i0 and pd = pd0, OF p0(2)] obtain st0 where a0: "add_ref st (Some i0) = Some st0"
    and dom0: "\<And>j. st j = None \<Longrightarrow> st0 j = None"
    and mono0: "\<And>j q. st j = Some q \<Longrightarrow>
           \<exists>q'. st0 j = Some q' \<and> data_pd q' = data_pd q \<and> refcount_pd q \<le> refcount_pd q'"
    and inc0: "\<exists>q'. st0 i0 = Some q' \<and> refcount_pd q' = refcount_pd pd0 + 1"
    by blast
  have two0: "\<exists>q'. st0 i0 = Some q' \<and> 2 \<le> refcount_pd q'"
    using inc0 p0(3) by auto
  from n show ?thesis
  proof
    assume one: "numPlanes f = 1"
    then have none: "d1 = None"
      using single nth by simp
    have res: "VSFrameRef_copy f st = Some (g, st0)"
      unfolding VSFrameRef_copy_def nth p0(1) a0 none g_def by simp
    have shared: "\<forall>k < nat (numPlanes f). \<forall>i. data_fr f ! k = Some i \<longrightarrow>
        (\<exists>pd'. st0 i = Some pd' \<and> 2 \<le> refcount_pd pd')"
    proof (intro allI impI)
      fix k i assume "k < nat (numPlanes f)" and i: "data_fr f ! k = Some i"
      then have "k = 0"
        using one by simp
      then have "i = i0"
        using i nth(1) p0(1) by simp
      then show "\<exists>pd'. st0 i = Some pd' \<and> 2 \<le> refcount_pd pd'"
        using two0 by simp
    qed
    show ?thesis
      using res g dom0 mono0 shared by (intro exI conjI) blast+
  next
    assume three: "numPlanes f = 3"
    from planes [of 1] three obtain i1 pd1 where
      p1: "d1 = Some i1" "st i1 = Some pd1" "1 \<le> refcount_pd pd1"
      unfolding nth by auto
    from planes [of 2] three obtain i2 pd2 where
      p2: "d2 = Some i2" "st i2 = Some pd2" "1 \<le> refcount_pd pd2"
      unfolding nth by auto
    from mono0 [of i1 pd1, OF p1(2)] obtain q1 where q1: "st0 i1 = Some q1" "refcount_pd pd1 \<le> refcount_pd q1"
      by blast
    from add_ref_grows [where st = st0 and i = i1 and pd = q1, OF q1(1)] obtain st1 where a1: "add_ref st0 (Some i1) = Some st1"
      and dom1: "\<And>j. st0 j = None \<Longrightarrow> st1 j = None"
      and mono1: "\<And>j q. st0 j = Some q \<Longrightarrow>
           \<exists>q'. st1 j = Some q' \<and> data_pd q' = data_pd q \<and> refcount_pd q \<le> refcount_pd q'"
      and inc1: "\<exists>q'. st1 i1 = Some q' \<and> refcount_pd q' = refcount_pd q1 + 1"
      by blast
    have two1: "\<exists>q'. st1 i = Some q' \<and> 2 \<le> refcount_pd q'" if "i = i0 \<or> i = i1" for i
    proof -
      from that show ?thesis
      proof
        assume "i = i0"
        with two0 mono1 show ?thesis
          by (metis order_trans)
      next
        assume "i = i1"
        with inc1 q1(2) p1(3) show ?thesis
          by auto
      qed
    qed
    from mono0 [of i2 pd2, OF p2(2)] obtain q2' where q2': "st0 i2 = Some q2'" "refcount_pd pd2 \<le> refcount_pd q2'"
      by blast
    from mono1 [of i2 q2', OF q2'(1)] obtain q2 where q2: "st1 i2 = Some q2" "refcount_pd q2' \<le> refcount_pd q2"
      by blast
    from add_ref_grows [where st = st1 and i = i2 and pd = q2, OF q2(1)] obtain st2 where a2: "add_ref st1 (Some i2) = Some st2"
      and dom2: "\<And>j. st1 j = None \<Longrightarrow> st2 j = None"
      and mono2: "\<And>j q. st1 j = Some q \<Longrightarrow>
           \<exists>q'. st2 j = Some q' \<and> data_pd q' = data_pd q \<and> refcount_pd q \<le> refcount_pd q'"
      and inc2: "\<exists>q'. st2 i2 = Some q' \<and> refcount_pd q' = refcount_pd q2 + 1"
      by blast
    have two: "\<exists>q'. st2 i = Some q' \<and> 2 \<le> refcount_pd q'" if "i = i0 \<or> i = i1 \<or> i = i2" for i
    proof (cases "i = i2")
      case True
      with inc2 q2(2) q2'(2) p2(3) show ?thesis
        by auto
    next
      case False
      with that have "i = i0 \<or> i = i1"
        by simp
      from two1 [OF this] mono2 show ?thesis
        by (metis order_trans)
    qed
    have res: "VSFrameRef_copy f st = Some (g, st2)"
      unfolding VSFrameRef_copy_def nth p0(1) p1(1) p2(1) a0 g_def by (simp add: a1 a2)
    have dom: "\<forall>j. st j = None \<longrightarrow> st2 j = None"
      using dom0 dom1 dom2 by blast
    have mono: "\<forall>j pd. st j = Some pd \<longrightarrow>
        (\<exists>pd'. st2 j = Some pd' \<and> data_pd pd' = data_pd pd \<and> refcount_pd pd \<le> refcount_pd pd')"
    proof (intro allI impI)
      fix j pd assume "st j = Some pd"
      from mono0 [of j pd, OF this] obtain a where a: "st0 j = Some a" "data_pd a = data_pd pd"
        "refcount_pd pd \<le> refcount_pd a"
        by blast
      from mono1 [of j a, OF a(1)] obtain b where b: "st1 j = Some b" "data_pd b = data_pd a"
        "refcount_pd a \<le> refcount_pd b"
        by blast
      from mono2 [of j b, OF b(1)] obtain c where c: "st2 j = Some c" "data_pd c = data_pd b"
        "refcount_pd b \<le> refcount_pd c"
        by blast
      show "\<exists>pd'. st2 j = Some pd' \<and> data_pd pd' = data_pd pd \<and> refcount_pd pd \<le> refcount_pd pd'"
        using a b c by auto
    qed
    have shared: "\<forall>k < nat (numPlanes f). \<forall>i. data_fr f ! k = Some i \<longrightarrow>
        (\<exists>pd'. st2 i = Some pd' \<and> 2 \<le> refcount_pd pd')"
    proof (intro allI impI)
      fix k i assume k: "k < nat (numPlanes f)" and i: "data_fr f ! k = Some i"
      from k three have "k = 0 \<or> k = 1 \<or> k = 2"
        by auto
      with i nth p0(1) p1(1) p2(1) have "i = i0 \<or> i = i1 \<or> i = i2"
        by auto
      then show "\<exists>pd'. st2 i = Some pd' \<and> 2 \<le> refcount_pd pd'"
        by (rule two)
    qed
    show ?thesis
      using res g dom mono shared by (intro exI conjI)
  qed
qed

text \<open>
  C1. Let \<open>f\<close> be a video frame and \<open>p\<close> one of its planes. Copying \<open>f\<close> succeeds and gives
  a frame \<open>g\<close> whose read pointer for \<open>p\<close> is that of \<open>f\<close>. A write pointer for plane \<open>p\<close>
  of \<open>g\<close> is then obtained by copying the plane data to a new object with the buffer \<open>buf\<close>
  that the allocator returns, a buffer of no live plane data: afterwards the plane data
  of \<open>g\<close> at \<open>p\<close> is unique, the read pointer of \<open>g\<close> for \<open>p\<close> is the write pointer and
  differs from the read pointer of \<open>f\<close>, which is what it was before the write; the
  other planes of \<open>g\<close> still have the read pointers of \<open>f\<close>.
\<close>

theorem copy_on_write:
  assumes ok: "video_frame_ok f (st :: 'w::len plane_store)"
    and p: "0 \<le> p" "p < numPlanes f"
    and fresh: "st new = None" "buf \<noteq> 0" "\<forall>i pd. st i = Some pd \<longrightarrow> data_pd pd \<noteq> buf"
  shows "\<exists>g st1. VSFrameRef_copy f st = Some (g, st1) \<and>
           (\<exists>r. getReadPtr f p st1 gs = Inr r \<and> getReadPtr g p st1 gs = Inr r) \<and>
           (\<exists>w g2 st2.
              getWritePtr g p st1 gs new buf = Inr (w, g2, st2) \<and>
              plane_unique g2 (nat p) st2 \<and>
              getReadPtr g2 p st2 gs = Inr w \<and>
              (\<exists>r. getReadPtr f p st2 gs = Inr r \<and> r \<noteq> w \<and> getReadPtr f p st1 gs = Inr r) \<and>
              (\<forall>q. q \<noteq> p \<longrightarrow> getReadPtr g2 q st2 gs = getReadPtr f q st2 gs))"
proof -
  from VSFrameRef_copy_shares [OF ok] obtain g st1 where
    copy: "VSFrameRef_copy f st = Some (g, st1)"
    and g: "data_fr g = data_fr f" "numPlanes g = numPlanes f" "contentType g = contentType f"
    and dom: "\<forall>j. st j = None \<longrightarrow> st1 j = None"
    and mono: "\<forall>j pd. st j = Some pd \<longrightarrow>
        (\<exists>pd'. st1 j = Some pd' \<and> data_pd pd' = data_pd pd \<and> refcount_pd pd \<le> refcount_pd pd')"
    and shared: "\<forall>k < nat (numPlanes f). \<forall>i. data_fr f ! k = Some i \<longrightarrow>
        (\<exists>pd'. st1 i = Some pd' \<and> 2 \<le> refcount_pd pd')"
    by blast
  from ok have video: "contentType f = mtVideo" and len: "length (data_fr f) = 3"
    and n: "numPlanes f = 1 \<or> numPlanes f = 3"
    and planes: "\<forall>k < nat (numPlanes f).
        \<exists>i pd. data_fr f ! k = Some i \<and> st i = Some pd \<and> 1 \<le> refcount_pd pd"
    by (simp_all add: video_frame_ok_def)
  have k: "nat p < nat (numPlanes f)" "nat p < length (data_fr f)"
    using p n len by auto
  from planes k(1) obtain i pd0 where i: "data_fr f ! nat p = Some i" "st i = Some pd0"
    by blast
  from shared k(1) i(1) obtain pd where pd: "st1 i = Some pd" "2 \<le> refcount_pd pd"
    by blast
  have same_data: "data_pd pd = data_pd pd0"
    using mono i(2) pd(1) by fastforce
  have differs: "data_pd pd \<noteq> buf"
    using fresh(3) i(2) same_data by auto
  have new1: "st1 new = None"
    using dom fresh(1) by blast
  have ne: "new \<noteq> i"
    using new1 pd(1) by auto
  have guard: "\<not> (p < 0 \<or> p \<ge> numPlanes f)" "\<not> (p < 0 \<or> p \<ge> numPlanes g)"
    using p g(2) by simp_all
  define copied where "copied = \<lparr>refcount_pd = 1, data_pd = buf, size_pd = size_pd pd,
      bytes_pd = take (unat (size_pd pd)) (bytes_pd pd)\<rparr>"
  define st2 where "st2 = st1(new \<mapsto> copied, i \<mapsto> pd\<lparr>refcount_pd := refcount_pd pd - 1\<rparr>)"
  define g2 where "g2 = g\<lparr>data_fr := (data_fr g)[nat p := Some new]\<rparr>"
  have st2: "st2 new = Some copied" "st2 i = Some (pd\<lparr>refcount_pd := refcount_pd pd - 1\<rparr>)"
    using ne by (simp_all add: st2_def)
  have g2: "data_fr g2 ! nat p = Some new" "numPlanes g2 = numPlanes f" "contentType g2 = mtVideo"
    "\<And>q. q \<noteq> p \<Longrightarrow> 0 \<le> q \<Longrightarrow> data_fr g2 ! nat q = data_fr f ! nat q"
    using k(2) g video p(1) by (simp_all add: g2_def)
  have wr: "getWritePtr g p st1 gs new buf = Inr (buf + gs, g2, st2)"
    unfolding g2_def st2_def copied_def
    using g(3) video p(1) guard(2) k(2) i(1) pd fresh(2) new1
    by (intro getWritePtr_shared) (simp_all add: g)
  have read_f1: "getReadPtr f p st1 gs = Inr (data_pd pd + gs)"
    unfolding getReadPtr_def if_not_P [OF guard(1)] by (simp add: video i(1) pd(1) data_of_def)
  have read_g1: "getReadPtr g p st1 gs = Inr (data_pd pd + gs)"
    unfolding getReadPtr_def if_not_P [OF guard(2)] by (simp add: video g i(1) pd(1) data_of_def)
  have read_f2: "getReadPtr f p st2 gs = Inr (data_pd pd + gs)"
    unfolding getReadPtr_def if_not_P [OF guard(1)] by (simp add: video i(1) st2(2) data_of_def)
  have read_g2: "getReadPtr g2 p st2 gs = Inr (buf + gs)"
    unfolding getReadPtr_def using guard(1) by (simp add: g2 st2(1) data_of_def copied_def)
  have uniq: "plane_unique g2 (nat p) st2"
    by (simp add: plane_unique_def g2(1) st2(1) unique_def copied_def)
  have ne_ptr: "data_pd pd + gs \<noteq> buf + gs"
    using differs by simp
  have others: "getReadPtr g2 q st2 gs = getReadPtr f q st2 gs" if "q \<noteq> p" for q
  proof (cases "q < 0 \<or> q \<ge> numPlanes f")
    case True
    then show ?thesis
      by (simp add: getReadPtr_def g2(2))
  next
    case False
    then have "0 \<le> q"
      by simp
    from g2(4) [OF that this] False show ?thesis
      by (simp add: getReadPtr_def g2(2,3) video)
  qed
  have aft: "\<exists>r. getReadPtr f p st2 gs = Inr r \<and> r \<noteq> buf + gs \<and> getReadPtr f p st1 gs = Inr r"
    using read_f2 read_f1 ne_ptr by simp
  have bef: "\<exists>r. getReadPtr f p st1 gs = Inr r \<and> getReadPtr g p st1 gs = Inr r"
    using read_f1 read_g1 by simp
  have "\<exists>w g2 st2.
      getWritePtr g p st1 gs new buf = Inr (w, g2, st2) \<and>
      plane_unique g2 (nat p) st2 \<and>
      getReadPtr g2 p st2 gs = Inr w \<and>
      (\<exists>r. getReadPtr f p st2 gs = Inr r \<and> r \<noteq> w \<and> getReadPtr f p st1 gs = Inr r) \<and>
      (\<forall>q. q \<noteq> p \<longrightarrow> getReadPtr g2 q st2 gs = getReadPtr f q st2 gs)"
  proof (rule exI [of _ "buf + gs"], rule exI [of _ g2], rule exI [of _ st2])
    show "getWritePtr g p st1 gs new buf = Inr (buf + gs, g2, st2) \<and>
      plane_unique g2 (nat p) st2 \<and>
      getReadPtr g2 p st2 gs = Inr (buf + gs) \<and>
      (\<exists>r. getReadPtr f p st2 gs = Inr r \<and> r \<noteq> buf + gs \<and> getReadPtr f p st1 gs = Inr r) \<and>
      (\<forall>q. q \<noteq> p \<longrightarrow> getReadPtr g2 q st2 gs = getReadPtr f q st2 gs)"
      using wr uniq read_g2 aft others by (intro conjI allI impI)
  qed
  with copy bef show ?thesis
    by (intro exI [of _ g] exI [of _ st1] conjI)
qed

theorem copy_on_write_witness:
  "example_store 3 = None \<and>
   (\<exists>g st1. VSFrameRef_copy example_frame example_store = Some (g, st1) \<and>
      (\<exists>r. getReadPtr example_frame 0 st1 32 = Inr r \<and> getReadPtr g 0 st1 32 = Inr r) \<and>
      (\<exists>w g2 st2.
         getWritePtr g 0 st1 32 3 16384 = Inr (w, g2, st2) \<and>
         plane_unique g2 (nat 0) st2 \<and>
         getReadPtr g2 0 st2 32 = Inr w \<and>
         (\<exists>r. getReadPtr example_frame 0 st2 32 = Inr r \<and> r \<noteq> w \<and>
              getReadPtr example_frame 0 st1 32 = Inr r)))"
proof -
  have ok: "video_frame_ok example_frame example_store"
    by (auto simp: video_frame_ok_def example_frame_def example_store_def
        numeral_3_eq_3 less_Suc_eq)
  have p: "(0::int) \<le> 0" "0 < numPlanes example_frame"
    by (simp_all add: example_frame_def)
  have fresh: "example_store 3 = None" "(16384 :: 64 word) \<noteq> 0"
    "\<forall>i pd. example_store i = Some pd \<longrightarrow> data_pd pd \<noteq> 16384"
    by (auto simp: example_store_def split: if_splits)
  from copy_on_write [OF ok p fresh, of 32] obtain g st1 where
    "VSFrameRef_copy example_frame example_store = Some (g, st1)"
    "\<exists>r. getReadPtr example_frame 0 st1 32 = Inr r \<and> getReadPtr g 0 st1 32 = Inr r"
    "\<exists>w g2 st2.
         getWritePtr g 0 st1 32 3 16384 = Inr (w, g2, st2) \<and>
         plane_unique g2 (nat 0) st2 \<and>
         getReadPtr g2 0 st2 32 = Inr w \<and>
         (\<exists>r. getReadPtr example_frame 0 st2 32 = Inr r \<and> r \<noteq> w \<and>
              getReadPtr example_frame 0 st1 32 = Inr r)"
    by blast
  with fresh(1) show ?thesis
    by blast
qed

end
